theory Spec2Isabelle
  imports Main "HOL-Library.Multiset"
begin

section \<open>Data model\<close>

text \<open>
  The flow document (\<^verbatim>\<open>FlowDocument\<close>) sits on a replicated sequence of segments.
  A segment is a run of text or a marker of length one; both carry a property set.
  Only the property keys the document model reads are kept: the reserved tile labels,
  the reserved range labels, the reserved marker id, the tag list of a begin marker and
  the CSS class list.
\<close>

datatype error = AssertionError | TypeError | InvalidPosition

text \<open>
  \<^verbatim>\<open>ReferenceType\<close> is a bit set in the merge tree; the document model only ever
  compares a marker's type with \<^verbatim>\<open>Tile\<close>, \<^verbatim>\<open>Tile | NestBegin\<close> and
  \<^verbatim>\<open>Tile | NestEnd\<close>, and creates references of type \<^verbatim>\<open>Simple\<close> (the constructor's
  default) and \<^verbatim>\<open>SlideOnRemove\<close>.
\<close>

datatype ReferenceType = Simple | Tile | Tile_NestBegin | Tile_NestEnd | SlideOnRemove

record PropertySet =
  tileLabels :: "string list"
  rangeLabels :: "string list"
  markerId :: "string option"
  tags :: "string list"
  classList :: "string option"

datatype segment =
    TextSegment string PropertySet
  | Marker ReferenceType PropertySet

datatype DocSegmentKind =
    textKind | paragraphKind | lineBreakKind | beginTagsKind | inclusionKind | endTagsKind |
    endOfTextKind

fun properties :: "segment \<Rightarrow> PropertySet" where
  "properties (TextSegment t ps) = ps"
| "properties (Marker rt ps) = ps"

fun cachedLength :: "segment \<Rightarrow> nat" where
  "cachedLength (TextSegment t ps) = length t"
| "cachedLength (Marker rt ps) = 1"

definition emptyProps :: PropertySet where
  "emptyProps = \<lparr> tileLabels = [], rangeLabels = [], markerId = None, tags = [],
      classList = None \<rparr>"

text \<open>The labels of \<^verbatim>\<open>tilesAndRanges\<close>, by the string each kind stands for.\<close>

definition tilesAndRanges :: "string \<Rightarrow> DocSegmentKind option" where
  "tilesAndRanges l =
     (if l = ''<p>'' then Some paragraphKind
      else if l = ''<br>'' then Some lineBreakKind
      else if l = ''<t>'' then Some beginTagsKind
      else if l = ''<?>'' then Some inclusionKind
      else None)"

text \<open>\<^verbatim>\<open>xs[0]\<close> of a JavaScript array: undefined on the empty array.\<close>

fun first :: "'a list \<Rightarrow> 'a option" where
  "first [] = None"
| "first (x # xs) = Some x"

text \<open>
  \<^verbatim>\<open>getDocSegmentKind\<close>. The end-of-document sentinel is the undefined segment, here
  \<open>None\<close>. Both \<^verbatim>\<open>assert\<close>s throw.
\<close>

fun getDocSegmentKind :: "segment option \<Rightarrow> error + DocSegmentKind" where
  "getDocSegmentKind None = Inr endOfTextKind"
| "getDocSegmentKind (Some (TextSegment t ps)) = Inr textKind"
| "getDocSegmentKind (Some (Marker markerType ps)) =
     (if markerType = Tile \<or> markerType = Tile_NestBegin then
        (let rangeLabel = first (rangeLabels ps);
             label = (if rangeLabel = None \<or> rangeLabel = Some [] then first (tileLabels ps)
                      else rangeLabel)
         in case label of
              None \<Rightarrow> Inl AssertionError
            | Some l \<Rightarrow> (case tilesAndRanges l of
                           None \<Rightarrow> Inl AssertionError
                         | Some kind \<Rightarrow> Inr kind))
      else if markerType \<noteq> Tile_NestEnd then Inl AssertionError
      else if first (rangeLabels ps) \<noteq> Some ''<t>'' then Inl AssertionError
      else Inr endTagsKind)"

section \<open>The sequence store\<close>

text \<open>
  The merge tree behind \<^verbatim>\<open>SharedString\<close> is not part of the sources. The spec's
  section 6 lists what the document model consumes from it: the length, the
  containing-segment lookup, the position of a segment, the traversal of the segments
  overlapping a range, and the primitive edits; the source also reads its marker index
  by id. A document is the list of live segments of the current snapshot; a segment
  object is named by its index in that list and the undefined segment by \<open>None\<close>.
\<close>

type_synonym doc = "segment list"

text \<open>
  Modelled from the spec: \<^verbatim>\<open>mergeTree.getLength\<close>, the store's \<^verbatim>\<open>length(snapshot)\<close>:
  the number of units of the live segments.
\<close>

definition getLength :: "doc \<Rightarrow> nat" where
  "getLength d = sum_list (map cachedLength d)"

text \<open>
  Modelled from the spec: \<^verbatim>\<open>mergeTree.getPosition\<close>, the store's \<^verbatim>\<open>positionOf(segment)\<close>:
  the position of the first unit of the segment with index \<open>i\<close>.
\<close>

definition positionOf :: "doc \<Rightarrow> nat \<Rightarrow> nat" where
  "positionOf d i = getLength (take i d)"

text \<open>
  Modelled from the spec: \<^verbatim>\<open>sharedString.getContainingSegment\<close>, the store's
  \<^verbatim>\<open>containingSegmentAt(position)\<close>: the segment holding position \<open>p\<close> and the offset of
  \<open>p\<close> inside it; a position that no segment holds fails with \<open>InvalidPosition\<close>
  (sections 4.1 and 7).
\<close>

fun containingSegmentAt :: "doc \<Rightarrow> nat \<Rightarrow> (nat \<times> nat) option" where
  "containingSegmentAt [] p = None"
| "containingSegmentAt (x # xs) p =
     (if p < cachedLength x then Some (0, p)
      else map_option (\<lambda>(i, off). (Suc i, off)) (containingSegmentAt xs (p - cachedLength x)))"

definition getContainingSegment :: "doc \<Rightarrow> nat \<Rightarrow> error + (nat option \<times> nat)" where
  "getContainingSegment d p =
     (case containingSegmentAt d p of
        None \<Rightarrow> Inl InvalidPosition
      | Some (i, off) \<Rightarrow> Inr (Some i, off))"

text \<open>
  Modelled from the spec: \<^verbatim>\<open>mergeTree.mapRange\<close>, the traversal behind the spec's
  \<^verbatim>\<open>visit\<close> (section 4.1). The leaves it hands to the leaf action: every segment of
  positive length that overlaps \<open>[start, en)\<close>, in position order, with its position and
  the part of the range inside it as offsets into the segment.
\<close>

type_synonym leaf = "nat \<times> segment \<times> nat \<times> nat"

fun mapRange :: "doc \<Rightarrow> nat \<Rightarrow> nat \<Rightarrow> nat \<Rightarrow> leaf list" where
  "mapRange [] pos start en = []"
| "mapRange (x # xs) pos start en =
     (if 0 < cachedLength x \<and> pos < en \<and> start < pos + cachedLength x
      then [(pos, x, start - pos, min (en - pos) (cachedLength x))]
      else [])
     @ mapRange xs (pos + cachedLength x) start en"

text \<open>\<^verbatim>\<open>Marker.getId\<close>: the reserved marker id of the property set.\<close>

fun getId :: "segment \<Rightarrow> string option" where
  "getId (TextSegment t ps) = None"
| "getId (Marker rt ps) = markerId ps"

text \<open>
  Modelled from the spec: \<^verbatim>\<open>mergeTree.idToSegment\<close>, the store's index of the markers by
  id; the two markers of a tag range share one generated id (section 3). It yields the
  first marker that carries the id, and nothing (undefined) when no marker does.
\<close>

fun idToSegment :: "doc \<Rightarrow> string \<Rightarrow> nat option" where
  "idToSegment [] k = None"
| "idToSegment (x # xs) k =
     (if getId x = Some k then Some 0 else map_option Suc (idToSegment xs k))"

section \<open>The flow document\<close>

text \<open>\<^verbatim>\<open>FlowDocument.getSegmentAndOffset\<close>\<close>

definition getSegmentAndOffset :: "doc \<Rightarrow> nat \<Rightarrow> error + (nat option \<times> nat)" where
  "getSegmentAndOffset d position =
     (if position = getLength d then Inr (None, 0) else getContainingSegment d position)"

text \<open>\<^verbatim>\<open>FlowDocument.getPosition\<close>\<close>

definition getPosition :: "doc \<Rightarrow> nat option \<Rightarrow> nat" where
  "getPosition d segment =
     (case segment of None \<Rightarrow> getLength d | Some i \<Rightarrow> positionOf d i)"

text \<open>
  \<^verbatim>\<open>FlowDocument.visitRange\<close>: the leaves the callback is applied to. Every callback of
  the document model returns \<^verbatim>\<open>true\<close>, so the traversal never stops early.
\<close>

definition visitRange :: "doc \<Rightarrow> nat \<Rightarrow> nat \<Rightarrow> leaf list" where
  "visitRange d start en = (if \<not> start < en then [] else mapRange d 0 start en)"

text \<open>
  \<^verbatim>\<open>FlowDocument.getOppositeMarker\<close>, \<^verbatim>\<open>getStart\<close> and \<^verbatim>\<open>getEnd\<close>.
  \<^verbatim>\<open>marker.getId().slice(n)\<close> throws on a marker without id.
\<close>

definition getOppositeMarker :: "doc \<Rightarrow> segment \<Rightarrow> nat \<Rightarrow> string \<Rightarrow> error + nat option" where
  "getOppositeMarker d marker oldPrefixLength newPrefix =
     (case getId marker of
        None \<Rightarrow> Inl TypeError
      | Some k \<Rightarrow> Inr (idToSegment d (newPrefix @ drop oldPrefixLength k)))"

definition getStart :: "doc \<Rightarrow> segment \<Rightarrow> error + nat option" where
  "getStart d marker = getOppositeMarker d marker 3 ''begin''"

definition getEnd :: "doc \<Rightarrow> segment \<Rightarrow> error + nat option" where
  "getEnd d marker = getOppositeMarker d marker 5 ''end''"

text \<open>
  \<^verbatim>\<open>FlowDocument.remove\<close>. The callback of the scan, on the accumulated ops and the
  active \<^verbatim>\<open>start\<close>; a removal op is the pair \<open>(pos1, pos2)\<close>. The debug line of the
  begin-tag case reads \<^verbatim>\<open>endTag.properties\<close>, which throws when no end marker was found.
\<close>

type_synonym IMergeTreeRemoveMsg = "nat \<times> nat"

fun removeLeaf ::
  "doc \<Rightarrow> nat \<Rightarrow> leaf \<Rightarrow> IMergeTreeRemoveMsg list \<times> nat \<Rightarrow>
     error + (IMergeTreeRemoveMsg list \<times> nat)" where
  "removeLeaf d en (position, segment, so, eo) (ops, start) =
     (case getDocSegmentKind (Some segment) of
        Inl err \<Rightarrow> Inl err
      | Inr beginTagsKind \<Rightarrow>
          (case getEnd d segment of
             Inl err \<Rightarrow> Inl err
           | Inr endTag \<Rightarrow>
               (let endPos = getPosition d endTag in
                if \<not> endPos < en then
                  (if endTag = None then Inl TypeError
                   else Inr (ops @ [(endPos, endPos + 1)], start))
                else Inr (ops, start)))
      | Inr endTagsKind \<Rightarrow>
          (case getStart d segment of
             Inl err \<Rightarrow> Inl err
           | Inr startTag \<Rightarrow>
               (let startPos = getPosition d startTag in
                if \<not> start \<le> startPos then Inr (ops @ [(start, position)], position + 1)
                else Inr (ops, start)))
      | Inr other \<Rightarrow> Inr (ops, start))"

fun removeScan ::
  "doc \<Rightarrow> nat \<Rightarrow> leaf list \<Rightarrow> IMergeTreeRemoveMsg list \<times> nat \<Rightarrow>
     error + (IMergeTreeRemoveMsg list \<times> nat)" where
  "removeScan d en [] st = Inr st"
| "removeScan d en (l # ls) st =
     (case removeLeaf d en l st of
        Inl err \<Rightarrow> Inl err
      | Inr st' \<Rightarrow> removeScan d en ls st')"

text \<open>The op pushed after the scan when the active range is not empty.\<close>

definition finalOp :: "IMergeTreeRemoveMsg list \<times> nat \<Rightarrow> nat \<Rightarrow> IMergeTreeRemoveMsg list" where
  "finalOp st en = (if snd st \<noteq> en then fst st @ [(snd st, en)] else fst st)"

text \<open>\<^verbatim>\<open>ops.sort((left, right) => right.pos1 - left.pos1)\<close>: descending by \<open>pos1\<close>.\<close>

definition sortDescending :: "IMergeTreeRemoveMsg list \<Rightarrow> IMergeTreeRemoveMsg list" where
  "sortDescending ops = sort_key (\<lambda>op. - int (fst op)) ops"

text \<open>The ops of the group \<^verbatim>\<open>remove(start, end)\<close> submits, or the exception it throws.\<close>

definition removeOps :: "doc \<Rightarrow> nat \<Rightarrow> nat \<Rightarrow> error + IMergeTreeRemoveMsg list" where
  "removeOps d start en =
     (case removeScan d en (visitRange d start en) ([], start) of
        Inl err \<Rightarrow> Inl err
      | Inr st \<Rightarrow> Inr (sortDescending (finalOp st en)))"

section \<open>Primitive edits of the store\<close>

text \<open>
  The ops of the merge tree that the document model builds with
  \<^verbatim>\<open>createRemoveRangeOp\<close> and \<^verbatim>\<open>createInsertSegmentOp\<close>, and the calls it makes on the
  shared string.
\<close>

datatype IMergeTreeOp =
    RemoveRangeOp nat nat
  | InsertSegmentOp nat segment

datatype StoreCall =
    GroupOperation "IMergeTreeOp list"
  | AnnotateRange nat nat "string option"

text \<open>
  The units of a document, one for every position: every character of a text run, and
  every marker.
\<close>

fun unitsOf :: "segment \<Rightarrow> segment list" where
  "unitsOf (TextSegment t ps) = map (\<lambda>c. TextSegment [c] ps) t"
| "unitsOf (Marker rt ps) = [Marker rt ps]"

definition units :: "doc \<Rightarrow> segment list" where
  "units d = concat (map unitsOf d)"

text \<open>
  Modelled from the spec: the store's primitive \<^verbatim>\<open>removeRange\<close> (section 6). It removes
  the units at the positions \<open>[a, b)\<close>; a text run keeps the characters outside the
  range and goes when none is left. A range outside \<open>[0, length]\<close> fails with
  \<open>InvalidPosition\<close> (section 7).
\<close>

fun removeUnits :: "doc \<Rightarrow> nat \<Rightarrow> nat \<Rightarrow> doc" where
  "removeUnits [] a b = []"
| "removeUnits (TextSegment t ps # xs) a b =
     (if take a t @ drop b t = [] then removeUnits xs (a - length t) (b - length t)
      else TextSegment (take a t @ drop b t) ps # removeUnits xs (a - length t) (b - length t))"
| "removeUnits (Marker rt ps # xs) a b =
     (if a = 0 \<and> 0 < b then removeUnits xs (a - 1) (b - 1)
      else Marker rt ps # removeUnits xs (a - 1) (b - 1))"

definition removeRange :: "doc \<Rightarrow> nat \<Rightarrow> nat \<Rightarrow> error + doc" where
  "removeRange d a b =
     (if a \<le> b \<and> b \<le> getLength d then Inr (removeUnits d a b) else Inl InvalidPosition)"

text \<open>
  Modelled from the spec: the store's primitive insertion (section 6). It puts the
  segment before the unit at position \<open>p\<close> and splits a text run there; a position
  beyond the length fails with \<open>InvalidPosition\<close> (section 7).
\<close>

fun insertAt :: "doc \<Rightarrow> nat \<Rightarrow> segment \<Rightarrow> doc option" where
  "insertAt [] p s = (if p = 0 then Some [s] else None)"
| "insertAt (x # xs) p s =
     (if p = 0 then Some (s # x # xs)
      else if p < cachedLength x then
        (case x of
           TextSegment t ps \<Rightarrow> Some (TextSegment (take p t) ps # s # TextSegment (drop p t) ps # xs)
         | Marker rt ps \<Rightarrow> None)
      else map_option ((#) x) (insertAt xs (p - cachedLength x) s))"

definition insertSegment :: "doc \<Rightarrow> nat \<Rightarrow> segment \<Rightarrow> error + doc" where
  "insertSegment d p s =
     (case insertAt d p s of None \<Rightarrow> Inl InvalidPosition | Some d' \<Rightarrow> Inr d')"

text \<open>
  Modelled from the spec: \<^verbatim>\<open>sharedString.groupOperation\<close>, the store's
  \<^verbatim>\<open>submitGroup(ops[])\<close> (section 6, "atomic, ordered"). The ops are applied one by
  one, in order, each to the document the one before left; the group yields the
  document after the last op, or fails and yields no document at all.
\<close>

fun applyOp :: "doc \<Rightarrow> IMergeTreeOp \<Rightarrow> error + doc" where
  "applyOp d (RemoveRangeOp a b) = removeRange d a b"
| "applyOp d (InsertSegmentOp p s) = insertSegment d p s"

fun groupOperation :: "doc \<Rightarrow> IMergeTreeOp list \<Rightarrow> error + doc" where
  "groupOperation d [] = Inr d"
| "groupOperation d (op # ops) =
     (case applyOp d op of
        Inl err \<Rightarrow> Inl err
      | Inr d' \<Rightarrow> groupOperation d' ops)"

section \<open>Removing a range\<close>

text \<open>
  \<^verbatim>\<open>FlowDocument.remove\<close>: the calls it makes on the shared string, and the document
  after them.
\<close>

definition removeCalls :: "doc \<Rightarrow> nat \<Rightarrow> nat \<Rightarrow> error + StoreCall list" where
  "removeCalls d start en =
     (case removeOps d start en of
        Inl err \<Rightarrow> Inl err
      | Inr ops \<Rightarrow> Inr [GroupOperation (map (\<lambda>(pos1, pos2). RemoveRangeOp pos1 pos2) ops)])"

definition remove :: "doc \<Rightarrow> nat \<Rightarrow> nat \<Rightarrow> error + doc" where
  "remove d start en =
     (case removeOps d start en of
        Inl err \<Rightarrow> Inl err
      | Inr ops \<Rightarrow> groupOperation d (map (\<lambda>(pos1, pos2). RemoveRangeOp pos1 pos2) ops))"

text \<open>
  The tag markers of a document are well formed when no two markers carry the same id
  and every begin marker's id reads \<^verbatim>\<open>begin-...\<close>, as \<^verbatim>\<open>insertTags\<close> writes them.
\<close>

definition markerIds :: "doc \<Rightarrow> string list" where
  "markerIds d = List.map_filter getId d"

definition isBeginId :: "segment \<Rightarrow> bool" where
  "isBeginId x = (case getId x of None \<Rightarrow> False | Some k \<Rightarrow> take 6 k = ''begin-'')"

definition wellFormedTags :: "doc \<Rightarrow> bool" where
  "wellFormedTags d =
     (distinct (markerIds d) \<and>
      list_all (\<lambda>x. getDocSegmentKind (Some x) \<noteq> Inr beginTagsKind \<or> isBeginId x) d)"

text \<open>
  The ranges of two removal ops share no position; an op covers a position; two ops lie
  apart when one ends where or before the other starts.
\<close>

definition disjointOps :: "IMergeTreeRemoveMsg \<Rightarrow> IMergeTreeRemoveMsg \<Rightarrow> bool" where
  "disjointOps x y = ({fst x ..< snd x} \<inter> {fst y ..< snd y} = {})"

definition covers :: "IMergeTreeRemoveMsg \<Rightarrow> nat \<Rightarrow> bool" where
  "covers x p = (fst x \<le> p \<and> p < snd x)"

text \<open>
  A list of removal ops that can be applied one after the other without any op moving
  the units of a later one: every op is a range, and every later op ends where or
  before it starts.
\<close>

fun descDisjoint :: "IMergeTreeRemoveMsg list \<Rightarrow> bool" where
  "descDisjoint [] = True"
| "descDisjoint (x # xs) = (fst x \<le> snd x \<and> list_all (\<lambda>y. snd y \<le> fst x) xs \<and> descDisjoint xs)"

text \<open>The removal ops as ops of the merge tree.\<close>

abbreviation toOps :: "IMergeTreeRemoveMsg list \<Rightarrow> IMergeTreeOp list" where
  "toOps ops \<equiv> map (\<lambda>(pos1, pos2). RemoveRangeOp pos1 pos2) ops"

definition separated :: "IMergeTreeRemoveMsg \<Rightarrow> IMergeTreeRemoveMsg \<Rightarrow> bool" where
  "separated x y = (snd x \<le> fst y \<or> snd y \<le> fst x)"

fun isMarker :: "segment \<Rightarrow> bool" where
  "isMarker (Marker rt ps) = True"
| "isMarker (TextSegment t ps) = False"

text \<open>
  The position of the end marker whose removal the begin-tag case of the scan pushes
  for a segment, if it pushes one; and these positions for a list of leaves.
\<close>

definition endTarget :: "doc \<Rightarrow> nat \<Rightarrow> segment \<Rightarrow> nat option" where
  "endTarget d en x =
     (if getDocSegmentKind (Some x) = Inr beginTagsKind then
        (case getEnd d x of
           Inr (Some j) \<Rightarrow> (if en \<le> positionOf d j then Some (positionOf d j) else None)
         | _ \<Rightarrow> None)
      else None)"

definition endTargets :: "doc \<Rightarrow> nat \<Rightarrow> leaf list \<Rightarrow> nat list" where
  "endTargets d en ls = List.map_filter (\<lambda>l. endTarget d en (fst (snd l))) ls"

text \<open>
  The invariant of the scan, on the ops pushed so far and the active start: an op is
  either a range that ends before the active start or the removal of one end marker at
  or beyond \<open>en\<close>; no two ops start at the same position; any two lie apart.
\<close>

definition opsInv :: "nat \<Rightarrow> IMergeTreeRemoveMsg list \<Rightarrow> nat \<Rightarrow> bool" where
  "opsInv en ops st =
     (st \<le> en \<and> distinct (map fst ops) \<and>
      (\<forall>x\<in>set ops. fst x \<le> snd x \<and> (snd x < st \<or> (en \<le> fst x \<and> snd x = fst x + 1))) \<and>
      (\<forall>x\<in>set ops. \<forall>y\<in>set ops. x \<noteq> y \<longrightarrow> separated x y))"

text \<open>
  What the scan needs of the leaves still to visit: their positions grow, lie before
  \<open>en\<close>, and those of the markers do not lie before the active start.
\<close>

definition leavesOK :: "nat \<Rightarrow> nat \<Rightarrow> leaf list \<Rightarrow> bool" where
  "leavesOK st en ls =
     (sorted_wrt (<) (map fst ls) \<and>
      (\<forall>l\<in>set ls. fst l < en \<and> (isMarker (fst (snd l)) \<longrightarrow> st \<le> fst l)))"

declare removeLeaf.simps [simp del]

text \<open>What is left of the invariant when the scan is over.\<close>

definition opsGood :: "IMergeTreeRemoveMsg list \<Rightarrow> bool" where
  "opsGood ops =
     (distinct (map fst ops) \<and> (\<forall>x\<in>set ops. fst x \<le> snd x) \<and>
      (\<forall>x\<in>set ops. \<forall>y\<in>set ops. x \<noteq> y \<longrightarrow> separated x y))"

section \<open>Inserting a tag range\<close>

text \<open>
  \<^verbatim>\<open>FlowDocument.tagsProperties\<close>: the tile labels are \<^verbatim>\<open>DocSegmentKind.inclusion\<close> and
  \<^verbatim>\<open>DocTile.checkpoint\<close>, the range label is \<^verbatim>\<open>DocSegmentKind.beginTags\<close>.
\<close>

definition tagsProperties :: PropertySet where
  "tagsProperties = \<lparr> tileLabels = [''<?>'', ''*''], rangeLabels = [''<t>''], markerId = None,
      tags = [], classList = None \<rparr>"

text \<open>
  The two markers \<^verbatim>\<open>insertTags\<close> builds. The id is the value of its one call of
  \<^verbatim>\<open>randomId()\<close>, a function of another package, and so a parameter here.
\<close>

definition endMarker :: "string \<Rightarrow> segment" where
  "endMarker k = Marker Tile_NestEnd (tagsProperties \<lparr> markerId := Some (''end-'' @ k) \<rparr>)"

definition beginMarker :: "string list \<Rightarrow> string \<Rightarrow> segment" where
  "beginMarker tgs k =
     Marker Tile_NestBegin (tagsProperties \<lparr> tags := tgs, markerId := Some (''begin-'' @ k) \<rparr>)"

text \<open>
  \<^verbatim>\<open>FlowDocument.insertTags\<close>: the calls it makes on the shared string, and the document
  after them.
\<close>

definition insertTagsOps :: "string list \<Rightarrow> nat \<Rightarrow> nat \<Rightarrow> string \<Rightarrow> IMergeTreeOp list" where
  "insertTagsOps tgs start en k =
     [] @ [InsertSegmentOp en (endMarker k)] @ [InsertSegmentOp start (beginMarker tgs k)]"

definition insertTagsCalls :: "string list \<Rightarrow> nat \<Rightarrow> nat \<Rightarrow> string \<Rightarrow> StoreCall list" where
  "insertTagsCalls tgs start en k = [GroupOperation (insertTagsOps tgs start en k)]"

definition insertTags :: "doc \<Rightarrow> string list \<Rightarrow> nat \<Rightarrow> nat \<Rightarrow> string \<Rightarrow> error + doc" where
  "insertTags d tgs start en k = groupOperation d (insertTagsOps tgs start en k)"

section \<open>Example documents\<close>

text \<open>
  Scenario 2 of the spec: a begin marker at 0, the text \<^verbatim>\<open>AB\<close> at \<open>[1, 3)\<close>, the end
  marker at 3.
\<close>

definition scenario2 :: doc where
  "scenario2 = [beginMarker [''b''] ''1'', TextSegment ''AB'' emptyProps, endMarker ''1'']"

text \<open>
  A tag range around \<^verbatim>\<open>ab\<close> followed by the text \<^verbatim>\<open>cd\<close>: the end marker sits at 3
  and its begin marker at 0.
\<close>

definition taggedThenText :: doc where
  "taggedThenText =
     [beginMarker [''b''] ''1'', TextSegment ''ab'' emptyProps, endMarker ''1'',
      TextSegment ''cd'' emptyProps]"

text \<open>
  Two tag ranges that overlap: begin markers at 0 and 1, their end markers at 2 and 3.
\<close>

definition overlappingTags :: doc where
  "overlappingTags =
     [beginMarker [''b''] ''1'', beginMarker [''i''] ''2'', endMarker ''1'', endMarker ''2'']"

text \<open>
  The document three calls of \<^verbatim>\<open>insertTags\<close> build from the empty one: the overlapping
  ranges 1 and 2, then an empty range 3 behind them. Its markers sit at the positions 0
  to 5.
\<close>

definition orphanDoc :: doc where
  "orphanDoc =
     [beginMarker [''b''] ''1'', beginMarker [''i''] ''2'', endMarker ''1'', endMarker ''2'',
      beginMarker [''u''] ''3'', endMarker ''3'']"

text \<open>
  The orphaned end markers of a document: the end-tag markers for which \<^verbatim>\<open>getStart\<close>
  finds no begin marker.
\<close>

definition orphanedEnds :: "doc \<Rightarrow> segment list" where
  "orphanedEnds d =
     filter (\<lambda>x. getDocSegmentKind (Some x) = Inr endTagsKind \<and> getStart d x = Inr None) d"

text \<open>
  The round trip of claim C4 as it is written: the position of the segment that
  \<^verbatim>\<open>getSegmentAndOffset\<close> returns, the offset left aside.
\<close>

definition segmentRoundTrip :: "doc \<Rightarrow> nat \<Rightarrow> error + nat" where
  "segmentRoundTrip d p =
     (case getSegmentAndOffset d p of
        Inl err \<Rightarrow> Inl err
      | Inr (segment, offset) \<Rightarrow> Inr (getPosition d segment))"

definition textAB :: doc where
  "textAB = [TextSegment ''AB'' emptyProps]"

section \<open>Local references\<close>

text \<open>
  A \<^verbatim>\<open>LocalReference\<close> holds a segment, an offset into it and a reference type. The
  reference to the end of the document holds the undefined segment and is built by
  \<^verbatim>\<open>new LocalReference(endOfTextSegment)\<close>, whose offset and type default to 0 and
  \<^verbatim>\<open>Simple\<close>.
\<close>

record LocalReference =
  refSegment :: "nat option"
  refOffset :: nat
  refType :: ReferenceType

definition endOfTextRef :: LocalReference where
  "endOfTextRef = \<lparr> refSegment = None, refOffset = 0, refType = Simple \<rparr>"

text \<open>
  \<^verbatim>\<open>FlowDocument.addLocalRef\<close>: the reference it returns, and the references it hands to
  \<^verbatim>\<open>mergeTree.addLocalReference\<close>.
\<close>

definition addLocalRef :: "doc \<Rightarrow> nat \<Rightarrow> error + (LocalReference \<times> LocalReference list)" where
  "addLocalRef d position =
     (if position \<ge> getLength d then Inr (endOfTextRef, [])
      else
        (case getSegmentAndOffset d position of
           Inl err \<Rightarrow> Inl err
         | Inr (segment, offset) \<Rightarrow>
             (let localRef = \<lparr> refSegment = segment, refOffset = offset, refType = SlideOnRemove \<rparr>
              in Inr (localRef, [localRef]))))"

text \<open>
  Modelled from the spec: \<^verbatim>\<open>LocalReference.toPosition\<close> is the store's
  \<^verbatim>\<open>resolveReference\<close> (section 6), applied to a reference that owns a segment and an
  offset (section 3): the position of the segment plus the offset.
\<close>

definition toPosition :: "doc \<Rightarrow> nat \<Rightarrow> nat \<Rightarrow> nat" where
  "toPosition d i off = positionOf d i + off"

text \<open>\<^verbatim>\<open>FlowDocument.localRefToPosition\<close>\<close>

definition localRefToPosition :: "doc \<Rightarrow> LocalReference \<Rightarrow> nat" where
  "localRefToPosition d localRef =
     (case refSegment localRef of
        None \<Rightarrow> getLength d
      | Some i \<Rightarrow> toPosition d i (refOffset localRef))"

text \<open>
  A reference is bound in a document when it is the end-of-document reference or its
  segment is a segment of the document and its offset lies inside that segment.
\<close>

definition validRef :: "doc \<Rightarrow> LocalReference \<Rightarrow> bool" where
  "validRef d r =
     (case refSegment r of
        None \<Rightarrow> True
      | Some i \<Rightarrow> i < length d \<and> refOffset r < cachedLength (d ! i))"

text \<open>
  Modelled from the spec: the slide-on-remove policy of the store (sections 3 and 4.2 and
  the glossary). When the store removes the units \<open>[a, b)\<close>, a registered reference
  that resolved before the range keeps its position, one that resolved after it moves
  down by the length of the range, and one that resolved inside it slides to the
  nearest surviving position after the range, which is \<open>a\<close> in the new document. The
  reference is then bound to the segment holding that position; when no unit is left
  there it ends on the undefined segment, as the comment on \<^verbatim>\<open>endOfTextSegment\<close> in the
  source says of a deleted sequence. The end-of-document reference is not registered
  and stays as it is.
\<close>

definition slidPosition :: "nat \<Rightarrow> nat \<Rightarrow> nat \<Rightarrow> nat" where
  "slidPosition a b q = (if q < a then q else if q < b then a else q - (b - a))"

definition slideOnRemove :: "doc \<Rightarrow> nat \<Rightarrow> nat \<Rightarrow> LocalReference \<Rightarrow> LocalReference" where
  "slideOnRemove d a b r =
     (case refSegment r of
        None \<Rightarrow> r
      | Some i \<Rightarrow>
          (case containingSegmentAt (removeUnits d a b) (slidPosition a b (toPosition d i (refOffset r))) of
             None \<Rightarrow> r \<lparr> refSegment := None, refOffset := 0 \<rparr>
           | Some (i', off') \<Rightarrow> r \<lparr> refSegment := Some i', refOffset := off' \<rparr>))"

section \<open>The caret\<close>

text \<open>
  The segment object behind a segment name: the undefined segment has none, and an index
  beyond the list names no segment of the snapshot.
\<close>

definition segmentOf :: "doc \<Rightarrow> nat option \<Rightarrow> segment option" where
  "segmentOf d s =
     (case s of None \<Rightarrow> None | Some i \<Rightarrow> (if i < length d then Some (d ! i) else None))"

text \<open>
  \<^verbatim>\<open>Caret.positionToNodeOffset\<close>, up to the call of the layout: the segment and offset
  it hands to \<^verbatim>\<open>layout.segmentAndOffsetToNodeAndOffset\<close>. The kind it tests first is
  the kind of \<^verbatim>\<open>ref.segment\<close>.
\<close>

definition positionToNodeOffsetTarget :: "doc \<Rightarrow> LocalReference \<Rightarrow> error + (nat option \<times> nat)" where
  "positionToNodeOffsetTarget d ref =
     (let position = localRefToPosition d ref in
      case getSegmentAndOffset d position of
        Inl err \<Rightarrow> Inl err
      | Inr (rightSegment, rightOffset) \<Rightarrow>
          (case getDocSegmentKind (segmentOf d (refSegment ref)) of
             Inl err \<Rightarrow> Inl err
           | Inr rightKind \<Rightarrow>
               if position = 0 \<or> rightKind = textKind then Inr (rightSegment, rightOffset)
               else
                 (case getSegmentAndOffset d (position - 1) of
                    Inl err \<Rightarrow> Inl err
                  | Inr (leftSegment, leftOffset) \<Rightarrow>
                      (case getDocSegmentKind (segmentOf d leftSegment) of
                         Inl err \<Rightarrow> Inl err
                       | Inr leftKind \<Rightarrow>
                           (let delta = (if leftKind = textKind then 1 else 0)
                            in Inr (leftSegment, leftOffset + delta))))))"

text \<open>
  The layout and the window's selection are not part of the document model. A node is
  named by a number; \<^verbatim>\<open>layout.segmentAndOffsetToNodeAndOffset\<close> is a parameter; the
  selection of the window holds an anchor and a focus, each a node (or null) and an
  offset, and \<^verbatim>\<open>setBaseAndExtent\<close> sets both.
\<close>

type_synonym node = nat

type_synonym layout = "nat option \<Rightarrow> nat \<Rightarrow> node \<times> nat"


datatype CaretCall =
    SegmentAndOffsetToNodeAndOffset "nat option" nat
  | SetBaseAndExtent node nat node nat


text \<open>\<^verbatim>\<open>Caret.positionToNodeOffset\<close>: the node and offset, and the call on the layout.\<close>

definition positionToNodeOffset ::
  "layout \<Rightarrow> doc \<Rightarrow> LocalReference \<Rightarrow> error + ((node \<times> nat) \<times> CaretCall list)" where
  "positionToNodeOffset lay d ref =
     (case positionToNodeOffsetTarget d ref of
        Inl err \<Rightarrow> Inl err
      | Inr (s, off) \<Rightarrow> Inr (lay s off, [SegmentAndOffsetToNodeAndOffset s off]))"




text \<open>Every marker of the document has a kind \<^verbatim>\<open>getDocSegmentKind\<close> accepts.\<close>

definition knownKinds :: "doc \<Rightarrow> bool" where
  "knownKinds d = list_all (\<lambda>x. getDocSegmentKind (Some x) \<noteq> Inl AssertionError) d"



text \<open>A layout that gives every segment a node of its own and keeps the offset.\<close>

definition segmentLayout :: layout where
  "segmentLayout s off = (case s of None \<Rightarrow> (0, off) | Some i \<Rightarrow> (Suc i, off))"



definition refInAB :: LocalReference where
  "refInAB = \<lparr> refSegment = Some 0, refOffset = 1, refType = SlideOnRemove \<rparr>"

definition refAtEndMarker :: LocalReference where
  "refAtEndMarker = \<lparr> refSegment = Some 2, refOffset = 0, refType = SlideOnRemove \<rparr>"

section \<open>CSS classes\<close>





















section \<open>Facts about the store\<close>

lemma getLength_Nil: "getLength [] = 0"
  by (simp add: getLength_def)

lemma length_unitsOf: "length (unitsOf x) = cachedLength x"
  by (cases x) simp_all

lemma units_Nil: "units [] = []"
  by (simp add: units_def)

lemma units_Cons: "units (x # xs) = unitsOf x @ units xs"
  by (simp add: units_def)

lemma getLength_Cons: "getLength (x # xs) = cachedLength x + getLength xs"
  by (simp add: getLength_def)

lemma length_units: "length (units d) = getLength d"
  by (induction d) (simp_all add: units_Nil units_Cons getLength_Nil getLength_Cons length_unitsOf)

lemma unitsOf_take_drop:
  "a \<le> b \<Longrightarrow> map (\<lambda>c. TextSegment [c] ps) (take a t @ drop b t)
     = take a (map (\<lambda>c. TextSegment [c] ps) t) @ drop b (map (\<lambda>c. TextSegment [c] ps) t)"
  by (simp add: take_map drop_map)

lemma take_drop_append_split:
  "a \<le> b \<Longrightarrow> take a (us @ vs) @ drop b (us @ vs)
     = (take a us @ drop b us) @ (take (a - length us) vs @ drop (b - length us) vs)"
  by (cases "b \<le> length us") auto

lemma units_removeUnits:
  "a \<le> b \<Longrightarrow> units (removeUnits d a b) = take a (units d) @ drop b (units d)"
proof (induction d arbitrary: a b)
  case Nil
  then show ?case by (simp add: units_Nil)
next
  case (Cons x xs)
  have le: "a - cachedLength x \<le> b - cachedLength x" using Cons.prems by simp
  note ih = Cons.IH [OF le]
  show ?case
  proof (cases x)
    case (TextSegment t ps)
    have "units (removeUnits (x # xs) a b)
        = map (\<lambda>c. TextSegment [c] ps) (take a t @ drop b t) @ units (removeUnits xs (a - length t) (b - length t))"
      using TextSegment by (simp add: units_Cons units_Nil)
    also have "\<dots> = (take a (unitsOf x) @ drop b (unitsOf x))
        @ (take (a - length (unitsOf x)) (units xs) @ drop (b - length (unitsOf x)) (units xs))"
      using TextSegment ih Cons.prems by (simp add: take_map drop_map)
    also have "\<dots> = take a (units (x # xs)) @ drop b (units (x # xs))"
      unfolding units_Cons using take_drop_append_split [OF Cons.prems] by metis
    finally show ?thesis .
  next
    case (Marker rt ps)
    show ?thesis
    proof (cases "a = 0 \<and> 0 < b")
      case True
      then obtain b' where b: "b = Suc b'" by (cases b) auto
      show ?thesis using True Marker ih b by (simp add: units_Cons)
    next
      case False
      then have "a \<noteq> 0 \<or> b = 0" by simp
      then show ?thesis
      proof
        assume "a \<noteq> 0"
        then obtain a' where a: "a = Suc a'" by (cases a) auto
        with Cons.prems obtain b' where b: "b = Suc b'" by (cases b) auto
        show ?thesis using Marker ih a b by (simp add: units_Cons)
      next
        assume "b = 0"
        with Cons.prems have "a = 0" by simp
        then show ?thesis using Marker ih \<open>b = 0\<close> by (simp add: units_Cons)
      qed
    qed
  qed
qed

lemma nths_take_drop:
  "a \<le> b \<Longrightarrow> \<forall>k\<ge>a. k \<in> R \<Longrightarrow>
     nths (take a U @ drop b U) R = nths U {k. \<not> (a \<le> k \<and> k < b) \<and> k \<in> R}"
proof (induction U arbitrary: a b R)
  case Nil
  then show ?case by simp
next
  case (Cons u us)
  show ?case
  proof (cases a)
    case 0
    then have R: "R = UNIV" using Cons.prems by auto
    have "nths (u # us) {k. \<not> (a \<le> k \<and> k < b) \<and> k \<in> R} = nths (u # us) {k. b \<le> k}"
      using 0 R by (simp add: not_less)
    also have "\<dots> = drop b (u # us)" by (simp add: drop_eq_nths)
    finally show ?thesis using 0 R by (simp add: nths_all)
  next
    case (Suc a')
    with Cons.prems obtain b' where b: "b = Suc b'" by (cases b) auto
    have le: "a' \<le> b'" using Cons.prems Suc b by simp
    have all: "\<forall>k\<ge>a'. k \<in> {j. Suc j \<in> R}" using Cons.prems Suc by auto
    have eq: "{j. Suc j \<in> {k. \<not> (a \<le> k \<and> k < b) \<and> k \<in> R}}
        = {k. \<not> (a' \<le> k \<and> k < b') \<and> k \<in> {j. Suc j \<in> R}}"
      using Suc b by auto
    show ?thesis
      using Cons.IH [OF le all] Suc b eq by (simp add: nths_Cons)
  qed
qed

lemma groupOperation_units:
  "descDisjoint ops \<Longrightarrow> list_all (\<lambda>x. snd x \<le> getLength d) ops \<Longrightarrow>
     \<exists>d'. groupOperation d (toOps ops) = Inr d' \<and>
       units d' = nths (units d) {k. list_all (\<lambda>x. \<not> covers x k) ops}"
proof (induction ops arbitrary: d)
  case Nil
  then show ?case by (simp add: nths_all)
next
  case (Cons x ops)
  obtain a b where x: "x = (a, b)" by (cases x)
  have ab: "a \<le> b" and bl: "b \<le> getLength d"
    using Cons.prems x by simp_all
  define d1 where "d1 = removeUnits d a b"
  have r: "removeRange d a b = Inr d1"
    using ab bl by (simp add: removeRange_def d1_def)
  have u1: "units d1 = take a (units d) @ drop b (units d)"
    unfolding d1_def by (rule units_removeUnits [OF ab])
  have len1: "getLength d1 = getLength d - (b - a)"
    using u1 ab bl length_units [of d1] length_units [of d] by simp
  have below: "list_all (\<lambda>y. snd y \<le> a) ops"
    using Cons.prems x by simp
  have "list_all (\<lambda>y. snd y \<le> getLength d1) ops"
    using below len1 ab bl by (auto simp: list_all_iff)
  with Cons.IH [of d1] Cons.prems obtain d' where
    g: "groupOperation d1 (toOps ops) = Inr d'" and
    u: "units d' = nths (units d1) {k. list_all (\<lambda>x. \<not> covers x k) ops}"
    by auto
  have all: "\<forall>k\<ge>a. k \<in> {k. list_all (\<lambda>x. \<not> covers x k) ops}"
    using below by (auto simp: list_all_iff covers_def)
  have "units d' = nths (units d) {k. \<not> (a \<le> k \<and> k < b) \<and> k \<in> {k. list_all (\<lambda>x. \<not> covers x k) ops}}"
    unfolding u u1 by (rule nths_take_drop [OF ab all])
  then have "units d' = nths (units d) {k. list_all (\<lambda>x. \<not> covers x k) (x # ops)}"
    using x by (simp add: covers_def)
  then show ?case using r g x by simp
qed

lemma sorted_desc_Cons:
  "sorted (map (\<lambda>op. - int (fst op)) (x # xs)) \<Longrightarrow> y \<in> set xs \<Longrightarrow> fst y \<le> fst (x :: nat \<times> nat)"
  by auto

lemma descDisjoint_sorted:
  "sorted (map (\<lambda>op. - int (fst op)) xs) \<Longrightarrow> distinct (map fst xs) \<Longrightarrow>
   \<forall>x\<in>set xs. fst x \<le> snd x \<Longrightarrow>
   \<forall>x\<in>set xs. \<forall>y\<in>set xs. x \<noteq> y \<longrightarrow> separated x y \<Longrightarrow> descDisjoint xs"
proof (induction xs)
  case Nil
  then show ?case by simp
next
  case (Cons x xs)
  have tail: "descDisjoint xs" using Cons by simp
  have "snd y \<le> fst x" if y: "y \<in> set xs" for y
  proof -
    have le: "fst y \<le> fst x" using Cons.prems(1) y by auto
    have "fst y \<in> fst ` set xs" using y by (rule imageI)
    moreover have "fst x \<notin> fst ` set xs" using Cons.prems(2) by simp
    ultimately have ne: "fst y \<noteq> fst x" by metis
    have "x \<noteq> y" using ne by auto
    then have "separated x y" using Cons.prems(4) y by simp
    moreover have "fst x \<le> snd x" using Cons.prems(3) by simp
    ultimately show ?thesis using le ne by (auto simp: separated_def)
  qed
  then show ?case using tail Cons.prems(3) by (simp add: list_all_iff)
qed

lemma sortDescending_set: "set (sortDescending ops) = set ops"
  by (simp add: sortDescending_def)

lemma sortDescending_sorted: "sorted (map (\<lambda>op. - int (fst op)) (sortDescending ops))"
  by (simp add: sortDescending_def)

lemma sortDescending_distinct: "distinct (map fst ops) \<Longrightarrow> distinct (map fst (sortDescending ops))"
proof -
  assume d: "distinct (map fst ops)"
  have "mset (map fst (sortDescending ops)) = mset (map fst ops)"
    by (simp add: sortDescending_def)
  then show ?thesis using d by (metis mset_eq_imp_distinct_iff)
qed

lemma kind_endTags_isMarker: "getDocSegmentKind (Some x) = Inr endTagsKind \<Longrightarrow> isMarker x"
  by (cases x) simp_all

lemma removeLeaf_Inr:
  assumes "removeLeaf d en (p, x, so, eo) (ops, st) = Inr (ops', st')"
  shows "(endTarget d en x = None \<and> ops' = ops \<and> st' = st) \<or>
         (\<exists>q. endTarget d en x = Some q \<and> en \<le> q \<and> ops' = ops @ [(q, q + 1)] \<and> st' = st) \<or>
         (endTarget d en x = None \<and> getDocSegmentKind (Some x) = Inr endTagsKind \<and>
            (\<exists>startTag. getStart d x = Inr startTag \<and> \<not> st \<le> getPosition d startTag) \<and>
            ops' = ops @ [(st, p)] \<and> st' = p + 1)"
  using assms
  by (auto simp: removeLeaf.simps endTarget_def getPosition_def Let_def
      split: sum.splits DocSegmentKind.splits option.splits if_splits)

lemma endTarget_ge: "endTarget d en x = Some q \<Longrightarrow> en \<le> q"
  by (auto simp: endTarget_def split: if_splits sum.splits option.splits)

lemma endTargets_Cons:
  "endTargets d en (l # ls) =
     (case endTarget d en (fst (snd l)) of None \<Rightarrow> endTargets d en ls
      | Some q \<Rightarrow> q # endTargets d en ls)"
  by (simp add: endTargets_def List.map_filter_simps split: option.splits)

lemma endTargets_ge: "q \<in> set (endTargets d en ls) \<Longrightarrow> en \<le> q"
  by (induction ls) (auto simp: endTargets_Cons endTargets_def List.map_filter_simps
      dest: endTarget_ge split: option.splits)

lemma opsInvI:
  "st \<le> en \<Longrightarrow> distinct (map fst ops) \<Longrightarrow>
   (\<And>x. x \<in> set ops \<Longrightarrow> fst x \<le> snd x \<and> (snd x < st \<or> (en \<le> fst x \<and> snd x = fst x + 1))) \<Longrightarrow>
   (\<And>x y. x \<in> set ops \<Longrightarrow> y \<in> set ops \<Longrightarrow> x \<noteq> y \<Longrightarrow> separated x y) \<Longrightarrow>
   opsInv en ops st"
  unfolding opsInv_def by blast

lemma opsInv_le: "opsInv en ops st \<Longrightarrow> st \<le> en"
  by (simp add: opsInv_def)

lemma opsInv_distinct: "opsInv en ops st \<Longrightarrow> distinct (map fst ops)"
  by (simp add: opsInv_def)

lemma opsInv_op:
  "opsInv en ops st \<Longrightarrow> x \<in> set ops \<Longrightarrow>
     fst x \<le> snd x \<and> (snd x < st \<or> (en \<le> fst x \<and> snd x = fst x + 1))"
  by (simp add: opsInv_def)

lemma opsInv_separated:
  "opsInv en ops st \<Longrightarrow> x \<in> set ops \<Longrightarrow> y \<in> set ops \<Longrightarrow> x \<noteq> y \<Longrightarrow> separated x y"
  unfolding opsInv_def by blast

lemma separated_sym: "separated x y \<Longrightarrow> separated y x"
  by (auto simp: separated_def)

lemma opsInv_snoc:
  assumes inv: "opsInv en ops st" and le: "st \<le> st'" "st' \<le> en"
    and new: "fst z \<le> snd z" "snd z < st' \<or> (en \<le> fst z \<and> snd z = fst z + 1)"
    and fresh: "\<And>x. x \<in> set ops \<Longrightarrow> fst x \<noteq> fst z \<and> separated x z"
  shows "opsInv en (ops @ [z]) st'"
proof (rule opsInvI)
  show "st' \<le> en" by (rule le)
next
  have "fst z \<notin> fst ` set ops" using fresh by force
  then show "distinct (map fst (ops @ [z]))" using opsInv_distinct [OF inv] by simp
next
  fix x assume "x \<in> set (ops @ [z])"
  then consider "x \<in> set ops" | "x = z" by auto
  then show "fst x \<le> snd x \<and> (snd x < st' \<or> (en \<le> fst x \<and> snd x = fst x + 1))"
  proof cases
    case 1
    from opsInv_op [OF inv 1] le show ?thesis by auto
  next
    case 2
    then show ?thesis using new by simp
  qed
next
  fix x y assume "x \<in> set (ops @ [z])" "y \<in> set (ops @ [z])" "x \<noteq> y"
  then consider "x \<in> set ops" "y \<in> set ops" | "x \<in> set ops" "y = z" | "x = z" "y \<in> set ops"
    by auto
  then show "separated x y"
  proof cases
    case 1
    then show ?thesis using opsInv_separated [OF inv] \<open>x \<noteq> y\<close> by blast
  next
    case 2
    then show ?thesis using fresh by simp
  next
    case 3
    then show ?thesis using fresh separated_sym by blast
  qed
qed

lemma opsInv_push_end:
  assumes inv: "opsInv en ops st" and q: "en \<le> q" and fresh: "\<forall>x\<in>set ops. fst x \<noteq> q"
  shows "opsInv en (ops @ [(q, q + 1)]) st"
proof (rule opsInv_snoc [OF inv])
  show "st \<le> st" by simp
  show "st \<le> en" by (rule opsInv_le [OF inv])
  show "fst (q, q + 1) \<le> snd (q, q + 1)" by simp
  show "snd (q, q + 1) < st \<or> (en \<le> fst (q, q + 1) \<and> snd (q, q + 1) = fst (q, q + 1) + 1)"
    using q by simp
next
  fix x assume x: "x \<in> set ops"
  have ne: "fst x \<noteq> q" using fresh x by simp
  from opsInv_op [OF inv x] opsInv_le [OF inv] q ne
  show "fst x \<noteq> fst (q, q + 1) \<and> separated x (q, q + 1)"
    unfolding separated_def by (simp; linarith)
qed

lemma opsInv_push_flush:
  assumes inv: "opsInv en ops st" and p: "st \<le> p" "p < en"
  shows "opsInv en (ops @ [(st, p)]) (p + 1)"
proof (rule opsInv_snoc [OF inv])
  show "st \<le> p + 1" using p by simp
  show "p + 1 \<le> en" using p by simp
  show "fst (st, p) \<le> snd (st, p)" using p by simp
  show "snd (st, p) < p + 1 \<or> (en \<le> fst (st, p) \<and> snd (st, p) = fst (st, p) + 1)"
    by simp
next
  fix x assume x: "x \<in> set ops"
  from opsInv_op [OF inv x] p
  show "fst x \<noteq> fst (st, p) \<and> separated x (st, p)"
    unfolding separated_def by (simp; linarith)
qed

lemma leavesOK_tail: "leavesOK st en (l # ls) \<Longrightarrow> leavesOK st en ls"
  by (simp add: leavesOK_def)

lemma leavesOK_advance: "leavesOK st en (l # ls) \<Longrightarrow> leavesOK (fst l + 1) en ls"
  by (auto simp: leavesOK_def)

lemma removeScan_Cons_Inr:
  "removeScan d en (l # ls) st = Inr r \<Longrightarrow>
     \<exists>st1. removeLeaf d en l st = Inr st1 \<and> removeScan d en ls st1 = Inr r"
  by (cases "removeLeaf d en l st") simp_all

lemma removeScan_inv:
  "removeScan d en ls (ops, st) = Inr (ops', st') \<Longrightarrow> opsInv en ops st \<Longrightarrow>
   leavesOK st en ls \<Longrightarrow> distinct (endTargets d en ls) \<Longrightarrow>
   \<forall>x\<in>set ops. fst x \<notin> set (endTargets d en ls) \<Longrightarrow>
   opsInv en ops' st' \<and> st \<le> st'"
proof (induction ls arbitrary: ops st)
  case Nil
  then show ?case by simp
next
  case (Cons l ls)
  obtain p x so eo where l: "l = (p, x, so, eo)" by (cases l)
  from removeScan_Cons_Inr [OF Cons.prems(1)] obtain st1' where
    a: "removeLeaf d en l (ops, st) = Inr st1'" and b: "removeScan d en ls st1' = Inr (ops', st')"
    by blast
  obtain ops1 st1 where st1': "st1' = (ops1, st1)" by (cases st1')
  have step: "removeLeaf d en (p, x, so, eo) (ops, st) = Inr (ops1, st1)"
    using a l st1' by simp
  have rest: "removeScan d en ls (ops1, st1) = Inr (ops', st')"
    using b st1' by simp
  from removeLeaf_Inr [OF step] show ?case
  proof (elim disjE exE conjE)
    assume same: "endTarget d en x = None" "ops1 = ops" "st1 = st"
    have "distinct (endTargets d en ls)" "\<forall>x\<in>set ops. fst x \<notin> set (endTargets d en ls)"
      using Cons.prems(4,5) same l by (simp_all add: endTargets_Cons)
    with Cons.IH [of ops st] rest same Cons.prems(2) leavesOK_tail [OF Cons.prems(3)]
    show ?thesis by simp
  next
    fix q assume push: "endTarget d en x = Some q" "en \<le> q" "ops1 = ops @ [(q, q + 1)]" "st1 = st"
    have d': "distinct (endTargets d en ls)" and nq: "q \<notin> set (endTargets d en ls)"
      and old: "\<forall>x\<in>set ops. fst x \<notin> set (endTargets d en ls)" and fresh: "\<forall>x\<in>set ops. fst x \<noteq> q"
      using Cons.prems(4,5) push l by (simp_all add: endTargets_Cons)
    have inv1: "opsInv en ops1 st" using opsInv_push_end [OF Cons.prems(2) push(2) fresh] push by simp
    have "\<forall>x\<in>set ops1. fst x \<notin> set (endTargets d en ls)" using old nq push by auto
    with Cons.IH [of ops1 st] rest push inv1 leavesOK_tail [OF Cons.prems(3)] d'
    show ?thesis by simp
  next
    assume flush: "endTarget d en x = None" "getDocSegmentKind (Some x) = Inr endTagsKind"
      "ops1 = ops @ [(st, p)]" "st1 = p + 1"
    have mk: "isMarker x" using flush(2) by (rule kind_endTags_isMarker)
    have p: "st \<le> p" "p < en" using Cons.prems(3) l mk by (simp_all add: leavesOK_def)
    have d': "distinct (endTargets d en ls)"
      and old: "\<forall>x\<in>set ops. fst x \<notin> set (endTargets d en ls)"
      using Cons.prems(4,5) flush l by (simp_all add: endTargets_Cons)
    have inv1: "opsInv en ops1 st1" using opsInv_push_flush [OF Cons.prems(2) p] flush by simp
    have "st \<notin> set (endTargets d en ls)" using p endTargets_ge [of st d en ls] by auto
    then have new: "\<forall>x\<in>set ops1. fst x \<notin> set (endTargets d en ls)" using old flush by auto
    have lv: "leavesOK st1 en ls" using leavesOK_advance [OF Cons.prems(3)] l flush by simp
    from Cons.IH [OF _ inv1 lv d' new] rest have "opsInv en ops' st' \<and> st1 \<le> st'" by simp
    then show ?thesis using flush p by simp
  qed
qed

lemma mapRange_Cons_mem:
  "l \<in> set (mapRange (x # xs) pos s e) \<Longrightarrow>
     (l = (pos, x, s - pos, min (e - pos) (cachedLength x)) \<and> 0 < cachedLength x \<and> pos < e \<and>
        s < pos + cachedLength x)
     \<or> l \<in> set (mapRange xs (pos + cachedLength x) s e)"
  by (simp split: if_splits)

lemma mapRange_pos_ge: "l \<in> set (mapRange d pos s e) \<Longrightarrow> pos \<le> fst l"
proof (induction d arbitrary: pos)
  case Nil
  then show ?case by simp
next
  case (Cons x xs)
  from mapRange_Cons_mem [OF Cons.prems] show ?case
  proof
    assume "l = (pos, x, s - pos, min (e - pos) (cachedLength x)) \<and> 0 < cachedLength x \<and> pos < e \<and>
        s < pos + cachedLength x"
    then show ?thesis by simp
  next
    assume "l \<in> set (mapRange xs (pos + cachedLength x) s e)"
    from Cons.IH [OF this] show ?thesis by simp
  qed
qed

lemma mapRange_gt: "l \<in> set (mapRange d (pos + n) s e) \<Longrightarrow> 0 < n \<Longrightarrow> pos < fst l"
  using mapRange_pos_ge [of l d "pos + n" s e] by simp

lemma mapRange_sorted: "sorted_wrt (<) (map fst (mapRange d pos s e))"
proof (induction d arbitrary: pos)
  case Nil
  then show ?case by simp
next
  case (Cons x xs)
  have tl: "sorted_wrt (<) (map fst (mapRange xs (pos + cachedLength x) s e))"
    by (rule Cons.IH)
  have gt: "pos < fst l" if "l \<in> set (mapRange xs (pos + cachedLength x) s e)" "0 < cachedLength x" for l
    using that by (rule mapRange_gt)
  show ?case
  proof (cases "0 < cachedLength x \<and> pos < e \<and> s < pos + cachedLength x")
    case True
    then show ?thesis using tl gt by auto
  next
    case False
    then show ?thesis using tl by auto
  qed
qed

lemma mapRange_bounds:
  "l \<in> set (mapRange d pos s e) \<Longrightarrow>
     fst l < e \<and> s < fst l + cachedLength (fst (snd l)) \<and> fst (snd l) \<in> set d"
proof (induction d arbitrary: pos)
  case Nil
  then show ?case by simp
next
  case (Cons x xs)
  from mapRange_Cons_mem [OF Cons.prems] show ?case
  proof
    assume "l = (pos, x, s - pos, min (e - pos) (cachedLength x)) \<and> 0 < cachedLength x \<and> pos < e \<and>
        s < pos + cachedLength x"
    then show ?thesis by simp
  next
    assume "l \<in> set (mapRange xs (pos + cachedLength x) s e)"
    from Cons.IH [OF this] show ?thesis by simp
  qed
qed

lemma isMarker_length: "isMarker x \<Longrightarrow> cachedLength x = 1"
  by (cases x) simp_all

lemma leavesOK_mapRange: "leavesOK s e (mapRange d pos s e)"
  unfolding leavesOK_def
proof (intro conjI ballI impI)
  show "sorted_wrt (<) (map fst (mapRange d pos s e))" by (rule mapRange_sorted)
next
  fix l assume "l \<in> set (mapRange d pos s e)"
  then show "fst l < e" using mapRange_bounds by blast
next
  fix l assume l: "l \<in> set (mapRange d pos s e)" and m: "isMarker (fst (snd l))"
  from mapRange_bounds [OF l] isMarker_length [OF m] show "s \<le> fst l" by simp
qed

lemma leavesOK_visitRange: "leavesOK s e (visitRange d s e)"
  by (simp add: visitRange_def leavesOK_mapRange) (simp add: leavesOK_def)

lemma map_filter_mapRange_subset:
  "set (List.map_filter (\<lambda>l. f (fst (snd l))) (mapRange d pos s e)) \<subseteq> set (List.map_filter f d)"
  by (induction d arbitrary: pos) (auto simp: List.map_filter_def)

lemma map_filter_mapRange_distinct:
  "distinct (List.map_filter f d) \<Longrightarrow>
     distinct (List.map_filter (\<lambda>l. f (fst (snd l))) (mapRange d pos s e))"
proof (induction d arbitrary: pos)
  case Nil
  then show ?case by (simp add: List.map_filter_def)
next
  case (Cons x xs)
  have tl: "distinct (List.map_filter f xs)"
    using Cons.prems by (auto simp: List.map_filter_def split: if_splits)
  note ih = Cons.IH [OF tl, of "pos + cachedLength x"]
  have sub: "set (List.map_filter (\<lambda>l. f (fst (snd l))) (mapRange xs (pos + cachedLength x) s e))
      \<subseteq> set (List.map_filter f xs)"
    by (rule map_filter_mapRange_subset)
  have app: "List.map_filter g (as @ bs) = List.map_filter g as @ List.map_filter g bs" for g :: "leaf \<Rightarrow> 'b option" and as bs
    by (simp add: List.map_filter_def)
  show ?case
  proof (cases "f x")
    case None
    then show ?thesis using ih by (simp add: app List.map_filter_simps)
  next
    case (Some v)
    then have "v \<notin> set (List.map_filter f xs)"
      using Cons.prems by (auto simp: List.map_filter_def)
    then have "v \<notin> set (List.map_filter (\<lambda>l. f (fst (snd l))) (mapRange xs (pos + cachedLength x) s e))"
      using sub by blast
    then show ?thesis using ih Some by (simp add: app List.map_filter_simps)
  qed
qed

lemma idToSegment_Some: "idToSegment d k = Some j \<Longrightarrow> j < length d \<and> getId (d ! j) = Some k"
proof (induction d arbitrary: j)
  case Nil
  then show ?case by simp
next
  case (Cons x xs)
  show ?case
  proof (cases "getId x = Some k")
    case True
    then show ?thesis using Cons.prems by simp
  next
    case False
    with Cons.prems obtain j' where j: "j = Suc j'" and "idToSegment xs k = Some j'"
      by auto
    with Cons.IH [of j'] show ?thesis by simp
  qed
qed

lemma getLength_append: "getLength (xs @ ys) = getLength xs + getLength ys"
  by (simp add: getLength_def)

lemma positionOf_Suc: "i < length d \<Longrightarrow> positionOf d (Suc i) = positionOf d i + cachedLength (d ! i)"
  by (simp add: positionOf_def take_Suc_conv_app_nth getLength_append getLength_Cons getLength_Nil)

lemma positionOf_mono: "i \<le> j \<Longrightarrow> positionOf d i \<le> positionOf d j"
proof -
  assume "i \<le> j"
  then obtain m where "j = i + m" using le_Suc_ex by blast
  then show ?thesis by (simp add: positionOf_def take_add getLength_append)
qed

lemma positionOf_less:
  "i < j \<Longrightarrow> i < length d \<Longrightarrow> 0 < cachedLength (d ! i) \<Longrightarrow> positionOf d i < positionOf d j"
  using positionOf_mono [of "Suc i" j d] positionOf_Suc [of i d] by simp

lemma hasId_length: "getId x = Some k \<Longrightarrow> cachedLength x = 1"
  by (cases x) simp_all

lemma positionOf_inj:
  assumes "i < length d" "j < length d" "getId (d ! i) = Some k" "getId (d ! j) = Some k'"
    and "positionOf d i = positionOf d j"
  shows "i = j"
proof (rule ccontr)
  assume "i \<noteq> j"
  then consider "i < j" | "j < i" by linarith
  then show False
  proof cases
    case 1
    from positionOf_less [OF 1 assms(1)] hasId_length [OF assms(3)] assms(5) show False by simp
  next
    case 2
    from positionOf_less [OF 2 assms(2)] hasId_length [OF assms(4)] assms(5) show False by simp
  qed
qed

lemma endTarget_Some:
  "endTarget d en x = Some q \<Longrightarrow>
     \<exists>k j. getDocSegmentKind (Some x) = Inr beginTagsKind \<and> getId x = Some k \<and>
       idToSegment d (''end'' @ drop 5 k) = Some j \<and> q = positionOf d j \<and> en \<le> q"
  by (auto simp: endTarget_def getEnd_def getOppositeMarker_def
      split: if_splits sum.splits option.splits)

lemma beginId_eq:
  assumes "take 6 k = ''begin-''" "take 6 k' = ''begin-''" "drop 5 k = drop 5 k'"
  shows "k = k'"
proof -
  have "take 5 k = take 5 (take 6 k)" "take 5 k' = take 5 (take 6 k')" by simp_all
  then have "take 5 k = take 5 k'" using assms by simp
  then show ?thesis using assms(3) by (metis append_take_drop_id)
qed

lemma endTarget_inj:
  assumes wf: "wellFormedTags d" and x: "x \<in> set d" and y: "y \<in> set d"
    and qx: "endTarget d en x = Some q" and qy: "endTarget d en y = Some q"
  shows "getId x = getId y"
proof -
  from endTarget_Some [OF qx] obtain k j where
    kx: "getDocSegmentKind (Some x) = Inr beginTagsKind" "getId x = Some k"
      "idToSegment d (''end'' @ drop 5 k) = Some j" "q = positionOf d j" by blast
  from endTarget_Some [OF qy] obtain k' j' where
    ky: "getDocSegmentKind (Some y) = Inr beginTagsKind" "getId y = Some k'"
      "idToSegment d (''end'' @ drop 5 k') = Some j'" "q = positionOf d j'" by blast
  have bx: "take 6 k = ''begin-''" and "take 6 k' = ''begin-''"
    using wf x y kx(1,2) ky(1,2)
    by (auto simp: wellFormedTags_def list_all_iff isBeginId_def)
  note j = idToSegment_Some [OF kx(3)] and j' = idToSegment_Some [OF ky(3)]
  have "j = j'"
    using positionOf_inj [of j d j'] j j' kx(4) ky(4) by simp
  then have "''end'' @ drop 5 k = ''end'' @ drop 5 k'" using j j' by simp
  then have "drop 5 k = drop 5 k'" by simp
  with beginId_eq [OF bx \<open>take 6 k' = ''begin-''\<close>] show ?thesis using kx(2) ky(2) by simp
qed

lemma distinct_map_filter_inj:
  "distinct (List.map_filter g xs) \<Longrightarrow>
   (\<And>x y v. x \<in> set xs \<Longrightarrow> y \<in> set xs \<Longrightarrow> f x = Some v \<Longrightarrow> f y = Some v \<Longrightarrow>
      \<exists>w. g x = Some w \<and> g y = Some w) \<Longrightarrow>
   distinct (List.map_filter f xs)"
proof (induction xs)
  case Nil
  then show ?case by (simp add: List.map_filter_simps)
next
  case (Cons x xs)
  have tl: "distinct (List.map_filter f xs)"
  proof (rule Cons.IH)
    show "distinct (List.map_filter g xs)"
      using Cons.prems(1) by (simp add: List.map_filter_simps split: option.splits)
  next
    fix a b v assume "a \<in> set xs" "b \<in> set xs" "f a = Some v" "f b = Some v"
    then show "\<exists>w. g a = Some w \<and> g b = Some w" using Cons.prems(2) [of a b v] by simp
  qed
  show ?case
  proof (cases "f x")
    case None
    then show ?thesis using tl by (simp add: List.map_filter_simps)
  next
    case (Some v)
    have "v \<notin> set (List.map_filter f xs)"
    proof
      assume "v \<in> set (List.map_filter f xs)"
      then obtain y where y: "y \<in> set xs" "f y = Some v"
        by (auto simp: List.map_filter_def)
      from Cons.prems(2) [of x y v] y Some obtain w where w: "g x = Some w" and wy: "g y = Some w"
        by auto
      have "w \<in> set (List.map_filter g xs)"
        using wy y(1) by (force simp: List.map_filter_def)
      then show False using Cons.prems(1) w by (simp add: List.map_filter_simps)
    qed
    then show ?thesis using tl Some by (simp add: List.map_filter_simps)
  qed
qed

lemma endTargets_doc_distinct:
  assumes wf: "wellFormedTags d"
  shows "distinct (List.map_filter (endTarget d en) d)"
proof (rule distinct_map_filter_inj [where g = getId])
  show "distinct (List.map_filter getId d)"
    using wf by (simp add: wellFormedTags_def markerIds_def)
next
  fix x y v assume xy: "x \<in> set d" "y \<in> set d" "endTarget d en x = Some v" "endTarget d en y = Some v"
  from endTarget_inj [OF wf xy] have "getId x = getId y" .
  moreover from endTarget_Some [OF xy(3)] obtain k where "getId x = Some k" by auto
  ultimately show "\<exists>w. getId x = Some w \<and> getId y = Some w" by metis
qed

lemma endTargets_visitRange_distinct:
  "wellFormedTags d \<Longrightarrow> distinct (endTargets d en (visitRange d s e))"
  unfolding endTargets_def visitRange_def
  using map_filter_mapRange_distinct [OF endTargets_doc_distinct, of d en 0 s e]
  by (simp add: List.map_filter_simps)

lemma opsInv_good: "opsInv en ops st \<Longrightarrow> opsGood ops"
  unfolding opsInv_def opsGood_def by blast

lemma finalOp_good:
  assumes inv: "opsInv en ops st"
  shows "opsGood (finalOp (ops, st) en)"
proof (cases "st = en")
  case True
  then show ?thesis using opsInv_good [OF inv] by (simp add: finalOp_def)
next
  case False
  then have lt: "st < en" using opsInv_le [OF inv] by simp
  have old: "fst x \<noteq> st \<and> separated x (st, en) \<and> fst x \<le> snd x" if x: "x \<in> set ops" for x
    using opsInv_op [OF inv x] lt unfolding separated_def by (simp; linarith)
  have "opsGood (ops @ [(st, en)])"
    unfolding opsGood_def
  proof (intro conjI ballI impI)
    have "st \<notin> fst ` set ops" using old by force
    then show "distinct (map fst (ops @ [(st, en)]))" using opsInv_distinct [OF inv] by simp
  next
    fix x assume "x \<in> set (ops @ [(st, en)])"
    then show "fst x \<le> snd x" using old lt by auto
  next
    fix x y assume "x \<in> set (ops @ [(st, en)])" "y \<in> set (ops @ [(st, en)])" "x \<noteq> y"
    then consider "x \<in> set ops" "y \<in> set ops" | "x \<in> set ops" "y = (st, en)"
      | "x = (st, en)" "y \<in> set ops"
      by auto
    then show "separated x y"
    proof cases
      case 1
      then show ?thesis using opsInv_separated [OF inv] \<open>x \<noteq> y\<close> by blast
    next
      case 2
      then show ?thesis using old by simp
    next
      case 3
      then show ?thesis using old separated_sym by blast
    qed
  qed
  then show ?thesis using False by (simp add: finalOp_def)
qed

lemma sortDescending_good: "opsGood ops \<Longrightarrow> descDisjoint (sortDescending ops)"
proof (rule descDisjoint_sorted)
  assume g: "opsGood ops"
  show "sorted (map (\<lambda>op. - int (fst op)) (sortDescending ops))" by (rule sortDescending_sorted)
  show "distinct (map fst (sortDescending ops))"
    using g by (simp add: opsGood_def sortDescending_distinct)
  show "\<forall>x\<in>set (sortDescending ops). fst x \<le> snd x"
    using g by (simp add: opsGood_def sortDescending_set)
  show "\<forall>x\<in>set (sortDescending ops). \<forall>y\<in>set (sortDescending ops). x \<noteq> y \<longrightarrow> separated x y"
    using g by (simp add: opsGood_def sortDescending_set)
qed

lemma removeOps_Inr:
  "removeOps d start en = Inr ops \<Longrightarrow>
     \<exists>ops0 st. removeScan d en (visitRange d start en) ([], start) = Inr (ops0, st) \<and>
       ops = sortDescending (finalOp (ops0, st) en)"
  by (auto simp: removeOps_def split: sum.splits)

lemma opsInv_init: "start \<le> en \<Longrightarrow> opsInv en [] start"
  by (simp add: opsInv_def)

lemma removeScan_visit_inv:
  assumes wf: "wellFormedTags d" and le: "start \<le> en"
    and scan: "removeScan d en (visitRange d start en) ([], start) = Inr (ops0, st)"
  shows "opsInv en ops0 st \<and> start \<le> st"
  using removeScan_inv [OF scan opsInv_init [OF le] leavesOK_visitRange
      endTargets_visitRange_distinct [OF wf]]
  by simp

lemma removeOps_descDisjoint:
  assumes wf: "wellFormedTags d" and le: "start \<le> en" and r: "removeOps d start en = Inr ops"
  shows "descDisjoint ops"
proof -
  from removeOps_Inr [OF r] obtain ops0 st where
    scan: "removeScan d en (visitRange d start en) ([], start) = Inr (ops0, st)" and
    ops: "ops = sortDescending (finalOp (ops0, st) en)" by blast
  from removeScan_visit_inv [OF wf le scan] have "opsInv en ops0 st" by simp
  from sortDescending_good [OF finalOp_good [OF this]] ops show ?thesis by simp
qed

lemma sortDescending_opsGood: "opsGood ops \<Longrightarrow> opsGood (sortDescending ops)"
  by (simp add: opsGood_def sortDescending_set sortDescending_distinct)

lemma separated_disjoint: "separated x y \<Longrightarrow> disjointOps x y"
  by (auto simp: separated_def disjointOps_def)

lemma opsGood_disjoint:
  assumes g: "opsGood ops" and ij: "i < length ops" "j < length ops" "i \<noteq> j"
  shows "disjointOps (ops ! i) (ops ! j)"
proof -
  have "distinct (map fst ops)" using g by (simp add: opsGood_def)
  then have "map fst ops ! i \<noteq> map fst ops ! j"
    using ij nth_eq_iff_index_eq [of "map fst ops" i j] by simp
  then have "ops ! i \<noteq> ops ! j" using ij by auto
  moreover have "ops ! i \<in> set ops" "ops ! j \<in> set ops" using ij by simp_all
  ultimately have "separated (ops ! i) (ops ! j)" using g unfolding opsGood_def by blast
  then show ?thesis by (rule separated_disjoint)
qed

lemma removeOps_sorted:
  assumes r: "removeOps d start en = Inr ops"
  shows "sorted_wrt (\<lambda>x y. fst y \<le> fst x) ops"
proof -
  from removeOps_Inr [OF r] obtain ops0 st where
    ops: "ops = sortDescending (finalOp (ops0, st) en)" by blast
  have "sorted (map (\<lambda>op. - int (fst op)) ops)" unfolding ops by (rule sortDescending_sorted)
  then show ?thesis by (simp add: sorted_map)
qed

lemma removeOps_inverted:
  assumes lt: "en < start" and r: "removeOps d start en = Inr ops"
  shows "ops = [(start, en)]"
  using r lt by (simp add: removeOps_def visitRange_def finalOp_def sortDescending_def)

lemma removeOps_opsGood:
  assumes wf: "wellFormedTags d" and le: "start \<le> en" and r: "removeOps d start en = Inr ops"
  shows "opsGood ops"
proof -
  from removeOps_Inr [OF r] obtain ops0 st where
    scan: "removeScan d en (visitRange d start en) ([], start) = Inr (ops0, st)" and
    ops: "ops = sortDescending (finalOp (ops0, st) en)" by blast
  from removeScan_visit_inv [OF wf le scan] have "opsInv en ops0 st" by simp
  from sortDescending_opsGood [OF finalOp_good [OF this]] ops show ?thesis by simp
qed

lemma groupOperation_units_Inr:
  "descDisjoint ops \<Longrightarrow> groupOperation d (toOps ops) = Inr d' \<Longrightarrow>
     units d' = nths (units d) {k. list_all (\<lambda>x. \<not> covers x k) ops}"
proof (induction ops arbitrary: d)
  case Nil
  then show ?case by (simp add: nths_all)
next
  case (Cons x ops)
  obtain a b where x: "x = (a, b)" by (cases x)
  from Cons.prems(2) x obtain d1 where
    r: "removeRange d a b = Inr d1" and g: "groupOperation d1 (toOps ops) = Inr d'"
    by (auto split: sum.splits)
  have ab: "a \<le> b" and d1: "d1 = removeUnits d a b"
    using r by (auto simp: removeRange_def split: if_splits)
  have u1: "units d1 = take a (units d) @ drop b (units d)"
    unfolding d1 by (rule units_removeUnits [OF ab])
  have below: "list_all (\<lambda>y. snd y \<le> a) ops" using Cons.prems(1) x by simp
  have "descDisjoint ops" using Cons.prems(1) by simp
  from Cons.IH [OF this g] have
    u: "units d' = nths (units d1) {k. list_all (\<lambda>x. \<not> covers x k) ops}" .
  have all: "\<forall>k\<ge>a. k \<in> {k. list_all (\<lambda>x. \<not> covers x k) ops}"
    using below by (auto simp: list_all_iff covers_def)
  have "units d' = nths (units d) {k. \<not> (a \<le> k \<and> k < b) \<and> k \<in> {k. list_all (\<lambda>x. \<not> covers x k) ops}}"
    unfolding u u1 by (rule nths_take_drop [OF ab all])
  then show ?case using x by (simp add: covers_def)
qed

lemma remove_inverted_fails:
  assumes "en < start"
  shows "\<exists>err. remove d start en = Inl err"
proof (cases "removeOps d start en")
  case (Inl err)
  then show ?thesis by (simp add: remove_def)
next
  case (Inr ops)
  from removeOps_inverted [OF assms Inr] have "ops = [(start, en)]" .
  then show ?thesis using Inr assms by (simp add: remove_def removeRange_def)
qed

lemma remove_units:
  assumes wf: "wellFormedTags d" and r: "removeOps d start en = Inr ops"
    and ok: "remove d start en = Inr d'"
  shows "units d' = nths (units d) {k. list_all (\<lambda>x. \<not> covers x k) ops}"
proof (cases "start \<le> en")
  case True
  have "groupOperation d (toOps ops) = Inr d'" using r ok by (simp add: remove_def)
  from groupOperation_units_Inr [OF removeOps_descDisjoint [OF wf True r] this] show ?thesis .
next
  case False
  then have "en < start" by simp
  from remove_inverted_fails [OF this, of d] ok show ?thesis by simp
qed

section \<open>Claims about removing a range\<close>

text \<open>
  Claim C3. \<^verbatim>\<open>remove(start, end)\<close> makes exactly one call on the shared string, a single
  group operation holding all the removal ops it accumulated. The ops of the group are
  in descending order of their start position, and on a document whose tag markers are
  well formed the ranges of any two of them share no position. The document model
  submits nothing else, so it shows no partly applied state of its own: whenever the
  group is applied, the document after it is the document before it without exactly
  the units some op of the group covers. That the group itself is applied atomically
  is the store's guarantee, which the model of \<^verbatim>\<open>groupOperation\<close> takes over (it
  yields the document after the last op or none).
\<close>

theorem remove_submits_one_sorted_disjoint_group:
  assumes c: "removeCalls d start en = Inr calls"
  shows "\<exists>ops. calls = [GroupOperation (map (\<lambda>(pos1, pos2). RemoveRangeOp pos1 pos2) ops)] \<and>
           removeOps d start en = Inr ops \<and>
           sorted_wrt (\<lambda>x y. fst y \<le> fst x) ops \<and>
           (wellFormedTags d \<longrightarrow>
              (\<forall>i j. i < length ops \<and> j < length ops \<and> i \<noteq> j \<longrightarrow> disjointOps (ops ! i) (ops ! j)) \<and>
              (\<forall>d'. remove d start en = Inr d' \<longrightarrow>
                 units d' = nths (units d) {k. list_all (\<lambda>x. \<not> covers x k) ops}))"
proof -
  from c obtain ops where r: "removeOps d start en = Inr ops"
    and calls: "calls = [GroupOperation (map (\<lambda>(pos1, pos2). RemoveRangeOp pos1 pos2) ops)]"
    by (auto simp: removeCalls_def split: sum.splits)
  have dis: "disjointOps (ops ! i) (ops ! j)"
    if wf: "wellFormedTags d" and ij: "i < length ops" "j < length ops" "i \<noteq> j" for i j
  proof (cases "start \<le> en")
    case True
    from opsGood_disjoint [OF removeOps_opsGood [OF wf True r] ij] show ?thesis .
  next
    case False
    then have "ops = [(start, en)]" using removeOps_inverted [OF _ r] by simp
    then show ?thesis using ij by simp
  qed
  have app: "units d' = nths (units d) {k. list_all (\<lambda>x. \<not> covers x k) ops}"
    if "wellFormedTags d" "remove d start en = Inr d'" for d'
    using that(1) r that(2) by (rule remove_units)
  show ?thesis using calls r removeOps_sorted [OF r] dis app by blast
qed

theorem remove_submits_one_sorted_disjoint_group_witness:
  "removeCalls scenario2 0 2 = Inr [GroupOperation [RemoveRangeOp 3 4, RemoveRangeOp 0 2]] \<and>
   wellFormedTags scenario2 \<and>
   remove scenario2 0 2 = Inr [TextSegment ''B'' emptyProps] \<and>
   (\<exists>ops. [GroupOperation [RemoveRangeOp 3 4, RemoveRangeOp 0 2]]
            = [GroupOperation (map (\<lambda>(pos1, pos2). RemoveRangeOp pos1 pos2) ops)] \<and>
          removeOps scenario2 0 2 = Inr ops \<and>
          sorted_wrt (\<lambda>x y. fst y \<le> fst x) ops \<and>
          (\<forall>i j. i < length ops \<and> j < length ops \<and> i \<noteq> j \<longrightarrow> disjointOps (ops ! i) (ops ! j)) \<and>
          (\<forall>d'. remove scenario2 0 2 = Inr d' \<longrightarrow>
              units d' = nths (units scenario2) {k. list_all (\<lambda>x. \<not> covers x k) ops}))"
proof -
  have wf: "wellFormedTags scenario2" by code_simp
  have c: "removeCalls scenario2 0 2 = Inr [GroupOperation [RemoveRangeOp 3 4, RemoveRangeOp 0 2]]"
    by code_simp
  have res: "remove scenario2 0 2 = Inr [TextSegment ''B'' emptyProps]" by code_simp
  from remove_submits_one_sorted_disjoint_group [OF c] wf
  have "\<exists>ops. [GroupOperation [RemoveRangeOp 3 4, RemoveRangeOp 0 2]]
            = [GroupOperation (map (\<lambda>(pos1, pos2). RemoveRangeOp pos1 pos2) ops)] \<and>
          removeOps scenario2 0 2 = Inr ops \<and>
          sorted_wrt (\<lambda>x y. fst y \<le> fst x) ops \<and>
          (\<forall>i j. i < length ops \<and> j < length ops \<and> i \<noteq> j \<longrightarrow> disjointOps (ops ! i) (ops ! j)) \<and>
          (\<forall>d'. remove scenario2 0 2 = Inr d' \<longrightarrow>
              units d' = nths (units scenario2) {k. list_all (\<lambda>x. \<not> covers x k) ops})"
    by (elim exE conjE) (rule exI, intro conjI, assumption+, (drule (1) mp, elim conjE, assumption)+)
  with c wf res show ?thesis by (intro conjI) assumption+
qed

lemma removeLeaf_mono:
  "removeLeaf d en l (ops, st) = Inr (ops', st') \<Longrightarrow> set ops \<subseteq> set ops'"
proof -
  assume a: "removeLeaf d en l (ops, st) = Inr (ops', st')"
  obtain p x so eo where l: "l = (p, x, so, eo)" by (cases l)
  from removeLeaf_Inr [of d en p x so eo ops st ops' st'] a l show ?thesis by auto
qed

lemma removeScan_mono:
  "removeScan d en ls (ops, st) = Inr (ops', st') \<Longrightarrow> set ops \<subseteq> set ops'"
proof (induction ls arbitrary: ops st)
  case Nil
  then show ?case by simp
next
  case (Cons l ls)
  from removeScan_Cons_Inr [OF Cons.prems] obtain st1' where
    a: "removeLeaf d en l (ops, st) = Inr st1'" and b: "removeScan d en ls st1' = Inr (ops', st')"
    by blast
  obtain ops1 st1 where st1': "st1' = (ops1, st1)" by (cases st1')
  from removeLeaf_mono [of d en l ops st ops1 st1] a st1' have "set ops \<subseteq> set ops1" by simp
  moreover from Cons.IH [of ops1 st1] b st1' have "set ops1 \<subseteq> set ops'" by simp
  ultimately show ?case by simp
qed

lemma removeLeaf_pushes_end:
  assumes "removeLeaf d en (p, x, so, eo) (ops, st) = Inr (ops', st')"
    and "endTarget d en x = Some q"
  shows "(q, q + 1) \<in> set ops'"
  using removeLeaf_Inr [OF assms(1)] assms(2) by auto

lemma removeScan_pushes_end:
  "removeScan d en ls (ops, st) = Inr (ops', st') \<Longrightarrow> l \<in> set ls \<Longrightarrow>
   endTarget d en (fst (snd l)) = Some q \<Longrightarrow> (q, q + 1) \<in> set ops'"
proof (induction ls arbitrary: ops st)
  case Nil
  then show ?case by simp
next
  case (Cons l' ls)
  from removeScan_Cons_Inr [OF Cons.prems(1)] obtain st1' where
    a: "removeLeaf d en l' (ops, st) = Inr st1'" and b: "removeScan d en ls st1' = Inr (ops', st')"
    by blast
  obtain ops1 st1 where st1': "st1' = (ops1, st1)" by (cases st1')
  show ?case
  proof (cases "l = l'")
    case True
    obtain p x so eo where l: "l' = (p, x, so, eo)" by (cases l')
    have "(q, q + 1) \<in> set ops1"
      using removeLeaf_pushes_end [of d en p x so eo ops st ops1 st1 q] a st1' l True Cons.prems(3)
      by simp
    moreover have "set ops1 \<subseteq> set ops'" using removeScan_mono [of d en ls ops1 st1] b st1' by simp
    ultimately show ?thesis by blast
  next
    case False
    then have "l \<in> set ls" using Cons.prems(2) by simp
    from Cons.IH [OF _ this Cons.prems(3), of ops1 st1] b st1' show ?thesis by simp
  qed
qed

lemma removeScan_origin:
  "removeScan d en ls (ops, st) = Inr (ops', st') \<Longrightarrow> z \<in> set ops' \<Longrightarrow>
   z \<in> set ops \<or>
   (\<exists>l\<in>set ls. endTarget d en (fst (snd l)) = Some (fst z) \<and> snd z = fst z + 1) \<or>
   (\<exists>l\<in>set ls. snd z = fst l \<and> getDocSegmentKind (Some (fst (snd l))) = Inr endTagsKind)"
proof (induction ls arbitrary: ops st)
  case Nil
  then show ?case by simp
next
  case (Cons l ls)
  from removeScan_Cons_Inr [OF Cons.prems(1)] obtain st1' where
    a: "removeLeaf d en l (ops, st) = Inr st1'" and b: "removeScan d en ls st1' = Inr (ops', st')"
    by blast
  obtain ops1 st1 where st1': "st1' = (ops1, st1)" by (cases st1')
  obtain p x so eo where l: "l = (p, x, so, eo)" by (cases l)
  have step: "removeLeaf d en (p, x, so, eo) (ops, st) = Inr (ops1, st1)" using a l st1' by simp
  from Cons.IH [of ops1 st1] b st1' Cons.prems(2)
  consider "z \<in> set ops1"
    | "\<exists>l\<in>set ls. endTarget d en (fst (snd l)) = Some (fst z) \<and> snd z = fst z + 1"
    | "\<exists>l\<in>set ls. snd z = fst l \<and> getDocSegmentKind (Some (fst (snd l))) = Inr endTagsKind"
    by auto
  then show ?case
  proof cases
    case 1
    from removeLeaf_Inr [OF step] have
      "z \<in> set ops \<or> (endTarget d en x = Some (fst z) \<and> snd z = fst z + 1) \<or>
        (snd z = p \<and> getDocSegmentKind (Some x) = Inr endTagsKind)"
      using 1 by (elim disjE exE conjE) auto
    then show ?thesis using l by auto
  next
    case 2
    then show ?thesis by auto
  next
    case 3
    then show ?thesis by auto
  qed
qed

lemma removeScan_append:
  "removeScan d en (xs @ ys) st =
     (case removeScan d en xs st of Inl err \<Rightarrow> Inl err | Inr st1 \<Rightarrow> removeScan d en ys st1)"
  by (induction xs arbitrary: st) (simp_all split: sum.splits)

lemma removeScan_lower:
  "removeScan d en ls (ops, st) = Inr (ops', st') \<Longrightarrow> st \<le> en \<Longrightarrow> leavesOK st en ls \<Longrightarrow>
   z \<in> set ops' \<Longrightarrow> z \<in> set ops \<or> st \<le> fst z"
proof (induction ls arbitrary: ops st)
  case Nil
  then show ?case by simp
next
  case (Cons l ls)
  from removeScan_Cons_Inr [OF Cons.prems(1)] obtain st1' where
    a: "removeLeaf d en l (ops, st) = Inr st1'" and b: "removeScan d en ls st1' = Inr (ops', st')"
    by blast
  obtain ops1 st1 where st1': "st1' = (ops1, st1)" by (cases st1')
  obtain p x so eo where l: "l = (p, x, so, eo)" by (cases l)
  have step: "removeLeaf d en (p, x, so, eo) (ops, st) = Inr (ops1, st1)" using a l st1' by simp
  have rest: "removeScan d en ls (ops1, st1) = Inr (ops', st')" using b st1' by simp
  from removeLeaf_Inr [OF step] show ?case
  proof (elim disjE exE conjE)
    assume same: "endTarget d en x = None" "ops1 = ops" "st1 = st"
    from Cons.IH [OF _ Cons.prems(2) leavesOK_tail [OF Cons.prems(3)] Cons.prems(4), of ops]
      rest same show ?thesis by simp
  next
    fix q assume push: "endTarget d en x = Some q" "en \<le> q" "ops1 = ops @ [(q, q + 1)]" "st1 = st"
    from Cons.IH [OF _ Cons.prems(2) leavesOK_tail [OF Cons.prems(3)] Cons.prems(4), of ops1]
      rest push have "z \<in> set ops1 \<or> st \<le> fst z" by simp
    then show ?thesis using push Cons.prems(2) by auto
  next
    assume flush: "endTarget d en x = None" "getDocSegmentKind (Some x) = Inr endTagsKind"
      "ops1 = ops @ [(st, p)]" "st1 = p + 1"
    have mk: "isMarker x" using flush(2) by (rule kind_endTags_isMarker)
    have p: "st \<le> p" "p < en" using Cons.prems(3) l mk by (simp_all add: leavesOK_def)
    have lv: "leavesOK st1 en ls" using leavesOK_advance [OF Cons.prems(3)] l flush by simp
    have "st1 \<le> en" using p flush by simp
    from Cons.IH [OF rest this lv Cons.prems(4)] have "z \<in> set ops1 \<or> st1 \<le> fst z" .
    then show ?thesis using flush p by auto
  qed
qed

lemma positionOf_0: "positionOf d 0 = 0"
  by (simp add: positionOf_def getLength_Nil)

lemma positionOf_Cons_Suc: "positionOf (x # xs) (Suc i) = cachedLength x + positionOf xs i"
  by (simp add: positionOf_def getLength_Cons)

lemma mapRange_mem:
  "i < length d \<Longrightarrow> 0 < cachedLength (d ! i) \<Longrightarrow> pos + positionOf d i < en \<Longrightarrow>
   start < pos + positionOf d i + cachedLength (d ! i) \<Longrightarrow>
   (pos + positionOf d i, d ! i, start - (pos + positionOf d i),
      min (en - (pos + positionOf d i)) (cachedLength (d ! i))) \<in> set (mapRange d pos start en)"
proof (induction d arbitrary: pos i)
  case Nil
  then show ?case by simp
next
  case (Cons x xs)
  show ?case
  proof (cases i)
    case 0
    then show ?thesis using Cons.prems by (simp add: positionOf_0)
  next
    case (Suc i')
    have "(pos + cachedLength x + positionOf xs i', xs ! i',
        start - (pos + cachedLength x + positionOf xs i'),
        min (en - (pos + cachedLength x + positionOf xs i')) (cachedLength (xs ! i')))
       \<in> set (mapRange xs (pos + cachedLength x) start en)"
      using Cons.prems Suc
      by (intro Cons.IH) (simp_all add: positionOf_Cons_Suc add.assoc)
    then show ?thesis using Suc by (simp add: positionOf_Cons_Suc add.assoc)
  qed
qed

lemma visitRange_marker_mem:
  assumes "i < length d" "isMarker (d ! i)" "start \<le> positionOf d i" "positionOf d i < en"
  shows "(positionOf d i, d ! i, 0, 1) \<in> set (visitRange d start en)"
proof -
  have len: "cachedLength (d ! i) = 1" using assms(2) by (rule isMarker_length)
  have "start < en" using assms(3,4) by simp
  moreover have "(0 + positionOf d i, d ! i, start - (0 + positionOf d i),
      min (en - (0 + positionOf d i)) (cachedLength (d ! i))) \<in> set (mapRange d 0 start en)"
    using assms len by (intro mapRange_mem) simp_all
  ultimately show ?thesis using assms(3,4) len by (simp add: visitRange_def)
qed

lemma positionOf_length: "positionOf d (length d) = getLength d"
  by (simp add: positionOf_def)

lemma positionOf_marker_lt:
  assumes "j < length d" "0 < cachedLength (d ! j)"
  shows "positionOf d j < getLength d"
proof -
  have "positionOf d (Suc j) \<le> positionOf d (length d)"
    using assms(1) by (intro positionOf_mono) simp
  then show ?thesis using positionOf_Suc [OF assms(1)] assms(2) by (simp add: positionOf_length)
qed

lemma endTarget_lt: "endTarget d en x = Some q \<Longrightarrow> q < getLength d"
proof -
  assume "endTarget d en x = Some q"
  from endTarget_Some [OF this] obtain k j where
    j: "idToSegment d (''end'' @ drop 5 k) = Some j" and q: "q = positionOf d j" by blast
  from idToSegment_Some [OF j] have "j < length d" "cachedLength (d ! j) = 1"
    by (auto dest: hasId_length)
  then show ?thesis using q positionOf_marker_lt [of j d] by simp
qed

lemma removeOps_bounds:
  assumes r: "removeOps d start en = Inr ops" and le: "start \<le> en" "en \<le> getLength d"
  shows "list_all (\<lambda>x. snd x \<le> getLength d) ops"
proof -
  from removeOps_Inr [OF r] obtain ops0 st where
    scan: "removeScan d en (visitRange d start en) ([], start) = Inr (ops0, st)" and
    ops: "ops = sortDescending (finalOp (ops0, st) en)" by blast
  have b0: "snd z \<le> getLength d" if z: "z \<in> set ops0" for z
  proof -
    from removeScan_origin [OF scan z]
    consider l where "l \<in> set (visitRange d start en)"
        "endTarget d en (fst (snd l)) = Some (fst z)" "snd z = fst z + 1"
      | l where "l \<in> set (visitRange d start en)" "snd z = fst l"
      by auto
    then show ?thesis
    proof cases
      case 1
      from endTarget_lt [OF 1(2)] 1(3) show ?thesis by simp
    next
      case 2
      have "fst l < en" using leavesOK_visitRange [of start en d] 2(1) by (simp add: leavesOK_def)
      then show ?thesis using 2(2) le by simp
    qed
  qed
  have "snd z \<le> getLength d" if z: "z \<in> set (finalOp (ops0, st) en)" for z
  proof -
    have "z \<in> set ops0 \<or> z = (st, en)" using z by (auto simp: finalOp_def split: if_splits)
    then show ?thesis using b0 [of z] le by auto
  qed
  then show ?thesis using ops by (simp add: list_all_iff sortDescending_set)
qed

lemma unitsOf_marker: "isMarker x \<Longrightarrow> unitsOf x = [x]"
  by (cases x) simp_all

lemma units_append: "units (xs @ ys) = units xs @ units ys"
  by (simp add: units_def)

lemma units_nth_marker:
  assumes "i < length d" "isMarker (d ! i)"
  shows "units d ! positionOf d i = d ! i"
proof -
  have "d = take i d @ d ! i # drop (Suc i) d" using assms(1) by (rule id_take_nth_drop)
  then have "units d = units (take i d) @ (d ! i # units (drop (Suc i) d))"
    using unitsOf_marker [OF assms(2)] by (metis units_append units_Cons append_Cons append_Nil)
  moreover have "length (units (take i d)) = positionOf d i"
    by (simp add: length_units positionOf_def)
  ultimately show ?thesis by (metis nth_append_length)
qed

lemma isMarker_unitsOf: "isMarker m \<Longrightarrow> m \<in> set (unitsOf x) \<longleftrightarrow> m = x"
  by (cases x; cases m) auto

lemma marker_in_units: "isMarker m \<Longrightarrow> m \<in> set (units d) \<longleftrightarrow> m \<in> set d"
  by (induction d) (auto simp: units_Nil units_Cons isMarker_unitsOf)

lemma hasId_isMarker: "getId x = Some k \<Longrightarrow> isMarker x"
  by (cases x) simp_all

lemma markerIds_unitsOf: "List.map_filter getId (unitsOf x) = List.map_filter getId [x]"
proof (cases x)
  case (TextSegment t ps)
  have "List.map_filter getId (map (\<lambda>c. TextSegment [c] ps) t) = []"
    by (induction t) (simp_all add: List.map_filter_simps)
  then show ?thesis using TextSegment by (simp add: List.map_filter_simps)
next
  case (Marker rt ps)
  then show ?thesis by simp
qed

lemma map_filter_append: "List.map_filter g (as @ bs) = List.map_filter g as @ List.map_filter g bs"
  by (simp add: List.map_filter_def)

lemma markerIds_units: "markerIds (units d) = markerIds d"
proof (induction d)
  case Nil
  then show ?case by (simp add: units_Nil)
next
  case (Cons x xs)
  have "markerIds (units (x # xs)) = List.map_filter getId (unitsOf x) @ markerIds (units xs)"
    by (simp add: markerIds_def units_Cons map_filter_append)
  also have "\<dots> = List.map_filter getId [x] @ markerIds xs"
    using Cons.IH by (simp add: markerIds_unitsOf)
  also have "\<dots> = markerIds (x # xs)"
    by (simp add: markerIds_def List.map_filter_simps split: option.splits)
  finally show ?case .
qed

lemma distinct_map_filter_nth:
  "distinct (List.map_filter g xs) \<Longrightarrow> i < length xs \<Longrightarrow> j < length xs \<Longrightarrow>
   xs ! i = xs ! j \<Longrightarrow> g (xs ! i) = Some v \<Longrightarrow> i = j"
proof (induction xs arbitrary: i j)
  case Nil
  then show ?case by simp
next
  case (Cons x xs)
  have tl: "distinct (List.map_filter g xs)"
    using Cons.prems(1) by (simp add: List.map_filter_simps split: option.splits)
  have notin: "g x = Some v \<Longrightarrow> k < length xs \<Longrightarrow> xs ! k = x \<Longrightarrow> False" for k
  proof -
    assume gx: "g x = Some v" and k: "k < length xs" "xs ! k = x"
    then have "x \<in> set xs" by (metis nth_mem)
    then have "v \<in> set (List.map_filter g xs)" using gx by (force simp: List.map_filter_def)
    then show False using Cons.prems(1) gx by (simp add: List.map_filter_simps)
  qed
  show ?case
  proof (cases i)
    case 0
    show ?thesis
    proof (cases j)
      case 0
      then show ?thesis using \<open>i = 0\<close> by simp
    next
      case (Suc j')
      have "g x = Some v" "j' < length xs" "xs ! j' = x"
        using 0 Suc Cons.prems(3,4,5) by simp_all
      from notin [OF this] show ?thesis ..
    qed
  next
    case (Suc i')
    show ?thesis
    proof (cases j)
      case 0
      have "g x = Some v" "i' < length xs" "xs ! i' = x"
        using 0 Suc Cons.prems(2,4,5) by simp_all
      from notin [OF this] show ?thesis ..
    next
      case (Suc j')
      from Cons.IH [OF tl, of i' j'] Cons.prems \<open>i = Suc i'\<close> Suc show ?thesis by simp
    qed
  qed
qed

lemma unit_of_marker_unique:
  assumes dist: "distinct (markerIds d)" and k: "k < length (units d)" "units d ! k = d ! j"
    and j: "j < length d" "getId (d ! j) = Some v"
  shows "k = positionOf d j"
proof -
  have mk: "isMarker (d ! j)" using j(2) by (rule hasId_isMarker)
  have q: "positionOf d j < length (units d)"
    using positionOf_marker_lt [OF j(1)] isMarker_length [OF mk] by (simp add: length_units)
  have eq: "units d ! k = units d ! positionOf d j"
    using k(2) units_nth_marker [OF j(1) mk] by simp
  have "distinct (List.map_filter getId (units d))"
    using dist markerIds_units [of d] by (simp add: markerIds_def)
  from distinct_map_filter_nth [OF this k(1) q eq] k(2) j(2) show ?thesis by simp
qed

lemma kind_beginTags_isMarker: "getDocSegmentKind (Some x) = Inr beginTagsKind \<Longrightarrow> isMarker x"
  by (cases x) simp_all

lemma finalOp_set: "set ops \<subseteq> set (finalOp (ops, st) en)"
  by (auto simp: finalOp_def)

lemma remove_applies:
  assumes wf: "wellFormedTags d" and le: "start \<le> en" "en \<le> getLength d"
    and r: "removeOps d start en = Inr ops"
  shows "\<exists>d'. remove d start en = Inr d' \<and>
           units d' = nths (units d) {k. list_all (\<lambda>x. \<not> covers x k) ops}"
  using groupOperation_units [OF removeOps_descDisjoint [OF wf le(1) r] removeOps_bounds [OF r le]]
    r by (simp add: remove_def)

text \<open>
  The end marker of a removed begin marker. Let a begin marker lie at a position inside
  \<open>[start, en)\<close> and let its end marker, the one \<^verbatim>\<open>getEnd\<close> finds, lie at a position
  \<open>q \<ge> en\<close>. Then the one group \<^verbatim>\<open>remove(start, end)\<close> submits holds the removal op
  for \<open>[q, q + 1)\<close>, and on a document with well-formed tag markers and \<open>en\<close> within the
  length the group applies and the document after it no longer holds that end marker.
  This is about the end marker of this begin marker only; scenario 2 of the spec is an
  instance, where \<^verbatim>\<open>remove(0, 2)\<close> leaves the text \<^verbatim>\<open>B\<close> alone.
\<close>

theorem remove_begin_removes_matching_end:
  assumes i: "i < length d" "getDocSegmentKind (Some (d ! i)) = Inr beginTagsKind"
    and p: "start \<le> positionOf d i" "positionOf d i < en"
    and e: "getEnd d (d ! i) = Inr (Some j)" "en \<le> positionOf d j"
    and c: "removeCalls d start en = Inr calls"
  shows "\<exists>ops. calls = [GroupOperation ops] \<and>
           RemoveRangeOp (positionOf d j) (positionOf d j + 1) \<in> set ops \<and>
           (wellFormedTags d \<and> en \<le> getLength d \<longrightarrow>
              (\<exists>d'. remove d start en = Inr d' \<and> d ! j \<notin> set d'))"
proof -
  define q where "q = positionOf d j"
  from c obtain ops where r: "removeOps d start en = Inr ops"
    and calls: "calls = [GroupOperation (toOps ops)]"
    by (auto simp: removeCalls_def split: sum.splits)
  from removeOps_Inr [OF r] obtain ops0 st where
    scan: "removeScan d en (visitRange d start en) ([], start) = Inr (ops0, st)" and
    ops: "ops = sortDescending (finalOp (ops0, st) en)" by blast
  have mk: "isMarker (d ! i)" using i(2) by (rule kind_beginTags_isMarker)
  have leaf: "(positionOf d i, d ! i, 0, 1) \<in> set (visitRange d start en)"
    using i(1) mk p by (rule visitRange_marker_mem)
  have tgt: "endTarget d en (d ! i) = Some q"
    using i(2) e by (simp add: endTarget_def q_def)
  have "(q, q + 1) \<in> set ops0"
    using removeScan_pushes_end [OF scan leaf] tgt by simp
  then have mem: "(q, q + 1) \<in> set ops"
    using finalOp_set [of ops0 st en] by (auto simp: ops sortDescending_set)
  then have opmem: "RemoveRangeOp q (q + 1) \<in> set (toOps ops)" by force
  have le: "start \<le> en" using p by simp
  have gone: "\<exists>d'. remove d start en = Inr d' \<and> d ! j \<notin> set d'"
    if wf: "wellFormedTags d" and len: "en \<le> getLength d"
  proof -
    from remove_applies [OF wf le len r] obtain d' where
      d': "remove d start en = Inr d'" and
      u: "units d' = nths (units d) {k. list_all (\<lambda>x. \<not> covers x k) ops}" by blast
    from e(1) obtain k where jid: "idToSegment d k = Some j"
      by (auto simp: getEnd_def getOppositeMarker_def split: option.splits)
    note j = idToSegment_Some [OF jid]
    have mj: "isMarker (d ! j)" using j by (auto dest: hasId_isMarker)
    have "d ! j \<notin> set d'"
    proof
      assume "d ! j \<in> set d'"
      then have "d ! j \<in> set (units d')" using marker_in_units [OF mj] by simp
      then obtain n where n: "n < length (units d)" "units d ! n = d ! j"
        "list_all (\<lambda>x. \<not> covers x n) ops"
        unfolding u set_nths by auto
      have dist: "distinct (markerIds d)" using wf by (simp add: wellFormedTags_def)
      have "n = q"
        unfolding q_def using j by (intro unit_of_marker_unique [OF dist n(1,2)]) simp_all
      then have "\<not> covers (q, q + 1) q" using n(3) mem by (auto simp: list_all_iff)
      then show False by (simp add: covers_def)
    qed
    then show ?thesis using d' by blast
  qed
  show ?thesis using calls opmem gone unfolding q_def by blast
qed

lemma removeScan_start_mono:
  "removeScan d en ls (ops, st) = Inr (ops', st') \<Longrightarrow> leavesOK st en ls \<Longrightarrow> st \<le> st'"
proof (induction ls arbitrary: ops st)
  case Nil
  then show ?case by simp
next
  case (Cons l ls)
  from removeScan_Cons_Inr [OF Cons.prems(1)] obtain st1' where
    a: "removeLeaf d en l (ops, st) = Inr st1'" and b: "removeScan d en ls st1' = Inr (ops', st')"
    by blast
  obtain ops1 st1 where st1': "st1' = (ops1, st1)" by (cases st1')
  obtain p x so eo where l: "l = (p, x, so, eo)" by (cases l)
  have step: "removeLeaf d en (p, x, so, eo) (ops, st) = Inr (ops1, st1)" using a l st1' by simp
  have rest: "removeScan d en ls (ops1, st1) = Inr (ops', st')" using b st1' by simp
  from removeLeaf_Inr [OF step] show ?case
  proof (elim disjE exE conjE)
    assume same: "endTarget d en x = None" "ops1 = ops" "st1 = st"
    from Cons.IH [OF _ leavesOK_tail [OF Cons.prems(2)], of ops] rest same show ?thesis by simp
  next
    fix q assume push: "endTarget d en x = Some q" "en \<le> q" "ops1 = ops @ [(q, q + 1)]" "st1 = st"
    from Cons.IH [OF _ leavesOK_tail [OF Cons.prems(2)], of ops1] rest push show ?thesis by simp
  next
    assume flush: "endTarget d en x = None" "getDocSegmentKind (Some x) = Inr endTagsKind"
      "ops1 = ops @ [(st, p)]" "st1 = p + 1"
    have mk: "isMarker x" using flush(2) by (rule kind_endTags_isMarker)
    have p: "st \<le> p" using Cons.prems(2) l mk by (simp add: leavesOK_def)
    have lv: "leavesOK st1 en ls" using leavesOK_advance [OF Cons.prems(2)] l flush by simp
    from Cons.IH [OF rest lv] have "st1 \<le> st'" .
    then show ?thesis using flush p by simp
  qed
qed

lemma leavesOK_prefix: "leavesOK st en (pre @ post) \<Longrightarrow> leavesOK st en pre"
  by (simp add: leavesOK_def sorted_wrt_append)

lemma leavesOK_suffix: "leavesOK st en (pre @ l # post) \<Longrightarrow> leavesOK (fst l + 1) en post"
  by (auto simp: leavesOK_def sorted_wrt_append)

lemma leavesOK_before: "leavesOK st en (pre @ l # post) \<Longrightarrow> l' \<in> set pre \<Longrightarrow> fst l' < fst l"
  by (auto simp: leavesOK_def sorted_wrt_append)

lemma removeScan_split:
  assumes "removeScan d en (pre @ l # post) st0 = Inr stF"
  shows "\<exists>st1 st2. removeScan d en pre st0 = Inr st1 \<and> removeLeaf d en l st1 = Inr st2 \<and>
           removeScan d en post st2 = Inr stF"
proof -
  from assms obtain st1 where 1: "removeScan d en pre st0 = Inr st1"
    and 2: "removeScan d en (l # post) st1 = Inr stF"
    by (auto simp: removeScan_append split: sum.splits)
  from removeScan_Cons_Inr [OF 2] 1 show ?thesis by blast
qed

text \<open>
  Claim C2. Let an end marker lie at a position \<open>p\<close> inside \<open>[start, en)\<close> and let its
  begin marker, the one \<^verbatim>\<open>getStart\<close> finds, lie before \<open>start\<close>. Then the scan, on
  reaching the marker with the active start \<open>s1\<close>, pushes the removal op for \<open>[s1, p)\<close>
  and goes on with the active start \<open>p + 1\<close>; the op for \<open>[s1, p)\<close> is in the submitted
  group; after the scan the op for \<open>[sF, en)\<close>, with \<open>sF\<close> the active start then, is in
  the group exactly when \<open>sF \<noteq> en\<close>; no op of the group covers \<open>p\<close>; and on a
  document with well-formed tag markers and \<open>en\<close> within the length the group applies
  and the document after it still holds the end marker.
\<close>

theorem remove_preserves_end_of_outer_range:
  assumes i: "i < length d" "getDocSegmentKind (Some (d ! i)) = Inr endTagsKind"
    and p: "start \<le> positionOf d i" "positionOf d i < en"
    and b: "getStart d (d ! i) = Inr startTag" "getPosition d startTag < start"
    and r: "removeOps d start en = Inr ops"
  shows "\<exists>pre post ops1 s1 opsF sF.
      visitRange d start en = pre @ (positionOf d i, d ! i, 0, 1) # post \<and>
      removeScan d en pre ([], start) = Inr (ops1, s1) \<and>
      removeLeaf d en (positionOf d i, d ! i, 0, 1) (ops1, s1)
        = Inr (ops1 @ [(s1, positionOf d i)], positionOf d i + 1) \<and>
      removeScan d en (visitRange d start en) ([], start) = Inr (opsF, sF) \<and>
      ops = sortDescending (if sF \<noteq> en then opsF @ [(sF, en)] else opsF) \<and>
      (s1, positionOf d i) \<in> set ops \<and>
      ((sF, en) \<in> set ops \<longleftrightarrow> sF \<noteq> en) \<and>
      list_all (\<lambda>z. \<not> covers z (positionOf d i)) ops \<and>
      (wellFormedTags d \<and> en \<le> getLength d \<longrightarrow>
         (\<exists>d'. remove d start en = Inr d' \<and> d ! i \<in> set d'))"
proof -
  define q where "q = positionOf d i"
  define l :: leaf where "l = (q, d ! i, 0, 1)"
  have le: "start \<le> en" using p by simp
  from removeOps_Inr [OF r] obtain opsF sF where
    scan: "removeScan d en (visitRange d start en) ([], start) = Inr (opsF, sF)" and
    ops: "ops = sortDescending (finalOp (opsF, sF) en)" by blast
  have mk: "isMarker (d ! i)" using i(2) by (rule kind_endTags_isMarker)
  have "l \<in> set (visitRange d start en)"
    unfolding l_def q_def using i(1) mk p by (rule visitRange_marker_mem)
  then obtain pre post where vr: "visitRange d start en = pre @ l # post"
    by (auto dest: split_list)
  have lv: "leavesOK start en (pre @ l # post)"
    using leavesOK_visitRange [of start en d] vr by simp
  from removeScan_split [of d en pre l post "([], start)" "(opsF, sF)"] scan vr
  obtain st1 st2 where s1: "removeScan d en pre ([], start) = Inr st1"
    and s2: "removeLeaf d en l st1 = Inr st2"
    and s3: "removeScan d en post st2 = Inr (opsF, sF)" by auto
  obtain ops1 a1 where st1: "st1 = (ops1, a1)" by (cases st1)
  have a1: "start \<le> a1"
    using removeScan_start_mono [of d en pre "[]" start ops1 a1] s1 st1 leavesOK_prefix [OF lv]
    by simp
  have leaf: "removeLeaf d en l (ops1, a1) = Inr (ops1 @ [(a1, q)], q + 1)"
    using i(2) b a1 by (simp add: l_def removeLeaf.simps)
  then have st2: "st2 = (ops1 @ [(a1, q)], q + 1)" using s2 st1 by simp
  have post: "removeScan d en post (ops1 @ [(a1, q)], q + 1) = Inr (opsF, sF)"
    using s3 st2 by simp
  have lvpost: "leavesOK (q + 1) en post" using leavesOK_suffix [OF lv] by (simp add: l_def)
  have qen: "q + 1 \<le> en" using p by (simp add: q_def)
  have sFq: "q + 1 \<le> sF" using removeScan_start_mono [OF post lvpost] .
  have flushed: "(a1, q) \<in> set opsF" using removeScan_mono [OF post] by auto
  then have mem: "(a1, q) \<in> set ops"
    using finalOp_set [of opsF sF en] by (auto simp: ops sortDescending_set)
  have final: "(sF, en) \<in> set ops \<longleftrightarrow> sF \<noteq> en"
  proof (cases "sF = en")
    case True
    have "(en, en) \<notin> set opsF"
    proof
      assume "(en, en) \<in> set opsF"
      from removeScan_origin [OF scan this]
      obtain l' where "l' \<in> set (visitRange d start en)" "en = fst l'" by auto
      then show False using leavesOK_visitRange [of start en d] by (auto simp: leavesOK_def)
    qed
    then show ?thesis using True by (simp add: ops sortDescending_set finalOp_def)
  next
    case False
    then show ?thesis by (simp add: ops sortDescending_set finalOp_def)
  qed
  have unc1: "\<not> covers z q" if z: "z \<in> set ops1" for z
  proof -
    from removeScan_origin [of d en pre "[]" start ops1 a1 z] s1 st1 z
    consider l' where "l' \<in> set pre" "endTarget d en (fst (snd l')) = Some (fst z)"
      | l' where "l' \<in> set pre" "snd z = fst l'"
      by auto
    then show ?thesis
    proof cases
      case 1
      from endTarget_ge [OF 1(2)] p show ?thesis by (simp add: covers_def q_def)
    next
      case 2
      from leavesOK_before [OF lv 2(1)] 2(2) show ?thesis by (simp add: covers_def l_def)
    qed
  qed
  have uncF: "\<not> covers z q" if z: "z \<in> set opsF" for z
  proof -
    from removeScan_lower [OF post qen lvpost z]
    consider "z \<in> set ops1" | "z = (a1, q)" | "q + 1 \<le> fst z" by auto
    then show ?thesis
    proof cases
      case 1
      then show ?thesis by (rule unc1)
    next
      case 2
      then show ?thesis by (simp add: covers_def)
    next
      case 3
      then show ?thesis by (simp add: covers_def)
    qed
  qed
  have unc: "list_all (\<lambda>z. \<not> covers z q) ops"
    unfolding list_all_iff
  proof
    fix z assume "z \<in> set ops"
    then have "z \<in> set opsF \<or> z = (sF, en)"
      by (auto simp: ops sortDescending_set finalOp_def split: if_splits)
    then show "\<not> covers z q"
    proof
      assume "z \<in> set opsF"
      then show ?thesis by (rule uncF)
    next
      assume "z = (sF, en)"
      then show ?thesis using sFq by (simp add: covers_def)
    qed
  qed
  have kept: "\<exists>d'. remove d start en = Inr d' \<and> d ! i \<in> set d'"
    if wf: "wellFormedTags d" and len: "en \<le> getLength d"
  proof -
    from remove_applies [OF wf le len r] obtain d' where
      d': "remove d start en = Inr d'" and
      u: "units d' = nths (units d) {k. list_all (\<lambda>x. \<not> covers x k) ops}" by blast
    have "q < length (units d)" using p len by (simp add: length_units q_def)
    moreover have "units d ! q = d ! i" unfolding q_def using i(1) mk by (rule units_nth_marker)
    ultimately have "d ! i \<in> set (units d')"
      unfolding u set_nths using unc by force
    then have "d ! i \<in> set d'" using marker_in_units [OF mk] by simp
    then show ?thesis using d' by blast
  qed
  have "ops = sortDescending (if sF \<noteq> en then opsF @ [(sF, en)] else opsF)"
    using ops by (simp add: finalOp_def)
  then show ?thesis
    using vr s1 st1 leaf scan mem final unc kept unfolding l_def q_def by blast
qed

theorem remove_begin_removes_matching_end_witness:
  "0 < length scenario2 \<and>
   getDocSegmentKind (Some (scenario2 ! 0)) = Inr beginTagsKind \<and>
   positionOf scenario2 0 = 0 \<and> getEnd scenario2 (scenario2 ! 0) = Inr (Some 2) \<and>
   positionOf scenario2 2 = 3 \<and>
   removeCalls scenario2 0 2 = Inr [GroupOperation [RemoveRangeOp 3 4, RemoveRangeOp 0 2]] \<and>
   wellFormedTags scenario2 \<and> 2 \<le> getLength scenario2 \<and>
   remove scenario2 0 2 = Inr [TextSegment ''B'' emptyProps] \<and>
   (\<exists>ops. [GroupOperation [RemoveRangeOp 3 4, RemoveRangeOp 0 2]] = [GroupOperation ops] \<and>
      RemoveRangeOp (positionOf scenario2 2) (positionOf scenario2 2 + 1) \<in> set ops \<and>
      (\<exists>d'. remove scenario2 0 2 = Inr d' \<and> scenario2 ! 2 \<notin> set d'))"
proof -
  have wf: "wellFormedTags scenario2" by code_simp
  have len: "2 \<le> getLength scenario2" by code_simp
  have i: "0 < length scenario2" "getDocSegmentKind (Some (scenario2 ! 0)) = Inr beginTagsKind"
    by code_simp+
  have p0: "positionOf scenario2 0 = 0" by code_simp
  have p: "0 \<le> positionOf scenario2 0" "positionOf scenario2 0 < 2" by code_simp+
  have e: "getEnd scenario2 (scenario2 ! 0) = Inr (Some 2)" by code_simp
  have p2: "positionOf scenario2 2 = 3" by code_simp
  have e2: "2 \<le> positionOf scenario2 2" by code_simp
  have c: "removeCalls scenario2 0 2 = Inr [GroupOperation [RemoveRangeOp 3 4, RemoveRangeOp 0 2]]"
    by code_simp
  have res: "remove scenario2 0 2 = Inr [TextSegment ''B'' emptyProps]" by code_simp
  from remove_begin_removes_matching_end [OF i p e e2 c] wf len
  have "\<exists>ops. [GroupOperation [RemoveRangeOp 3 4, RemoveRangeOp 0 2]] = [GroupOperation ops] \<and>
      RemoveRangeOp (positionOf scenario2 2) (positionOf scenario2 2 + 1) \<in> set ops \<and>
      (\<exists>d'. remove scenario2 0 2 = Inr d' \<and> scenario2 ! 2 \<notin> set d')" by blast
  with i p0 e p2 c wf len res show ?thesis by (intro conjI) assumption+
qed

theorem remove_preserves_end_of_outer_range_witness:
  "2 < length taggedThenText \<and>
   getDocSegmentKind (Some (taggedThenText ! 2)) = Inr endTagsKind \<and>
   positionOf taggedThenText 2 = 3 \<and>
   getStart taggedThenText (taggedThenText ! 2) = Inr (Some 0) \<and>
   getPosition taggedThenText (Some 0) = 0 \<and>
   removeOps taggedThenText 1 6 = Inr [(4, 6), (1, 3)] \<and>
   wellFormedTags taggedThenText \<and> 6 \<le> getLength taggedThenText \<and>
   remove taggedThenText 1 6 = Inr [beginMarker [''b''] ''1'', endMarker ''1''] \<and>
   (\<exists>pre post ops1 s1 opsF sF.
      visitRange taggedThenText 1 6
        = pre @ (positionOf taggedThenText 2, taggedThenText ! 2, 0, 1) # post \<and>
      removeScan taggedThenText 6 pre ([], 1) = Inr (ops1, s1) \<and>
      removeLeaf taggedThenText 6 (positionOf taggedThenText 2, taggedThenText ! 2, 0, 1) (ops1, s1)
        = Inr (ops1 @ [(s1, positionOf taggedThenText 2)], positionOf taggedThenText 2 + 1) \<and>
      removeScan taggedThenText 6 (visitRange taggedThenText 1 6) ([], 1) = Inr (opsF, sF) \<and>
      [(4, 6), (1, 3)] = sortDescending (if sF \<noteq> 6 then opsF @ [(sF, 6)] else opsF) \<and>
      (s1, positionOf taggedThenText 2) \<in> set [(4, 6), (1, 3)] \<and>
      ((sF, 6 :: nat) \<in> set [(4, 6), (1, 3)] \<longleftrightarrow> sF \<noteq> 6) \<and>
      list_all (\<lambda>z. \<not> covers z (positionOf taggedThenText 2)) [(4, 6), (1, 3)] \<and>
      (\<exists>d'. remove taggedThenText 1 6 = Inr d' \<and> taggedThenText ! 2 \<in> set d'))"
proof -
  have wf: "wellFormedTags taggedThenText" by code_simp
  have len: "6 \<le> getLength taggedThenText" by code_simp
  have i: "2 < length taggedThenText"
    "getDocSegmentKind (Some (taggedThenText ! 2)) = Inr endTagsKind" by code_simp+
  have p3: "positionOf taggedThenText 2 = 3" by code_simp
  have p: "1 \<le> positionOf taggedThenText 2" "positionOf taggedThenText 2 < 6" by code_simp+
  have b: "getStart taggedThenText (taggedThenText ! 2) = Inr (Some 0)" by code_simp
  have b0: "getPosition taggedThenText (Some 0) = 0" by code_simp
  have b1: "getPosition taggedThenText (Some 0) < 1" by code_simp
  have r: "removeOps taggedThenText 1 6 = Inr [(4, 6), (1, 3)]" by code_simp
  have res: "remove taggedThenText 1 6 = Inr [beginMarker [''b''] ''1'', endMarker ''1'']"
    by code_simp
  from remove_preserves_end_of_outer_range [OF i p b b1 r] wf len
  have "\<exists>pre post ops1 s1 opsF sF.
      visitRange taggedThenText 1 6
        = pre @ (positionOf taggedThenText 2, taggedThenText ! 2, 0, 1) # post \<and>
      removeScan taggedThenText 6 pre ([], 1) = Inr (ops1, s1) \<and>
      removeLeaf taggedThenText 6 (positionOf taggedThenText 2, taggedThenText ! 2, 0, 1) (ops1, s1)
        = Inr (ops1 @ [(s1, positionOf taggedThenText 2)], positionOf taggedThenText 2 + 1) \<and>
      removeScan taggedThenText 6 (visitRange taggedThenText 1 6) ([], 1) = Inr (opsF, sF) \<and>
      [(4, 6), (1, 3)] = sortDescending (if sF \<noteq> 6 then opsF @ [(sF, 6)] else opsF) \<and>
      (s1, positionOf taggedThenText 2) \<in> set [(4, 6), (1, 3)] \<and>
      ((sF, 6 :: nat) \<in> set [(4, 6), (1, 3)] \<longleftrightarrow> sF \<noteq> 6) \<and>
      list_all (\<lambda>z. \<not> covers z (positionOf taggedThenText 2)) [(4, 6), (1, 3)] \<and>
      (\<exists>d'. remove taggedThenText 1 6 = Inr d' \<and> taggedThenText ! 2 \<in> set d')"
    by (simp only: simp_thms)
  with i p3 b b0 r wf len res show ?thesis by (intro conjI) assumption+
qed

text \<open>
  Claim C1. A call \<^verbatim>\<open>remove(start, end)\<close> on a document in which a begin marker lies
  inside \<open>[start, en)\<close> and its end marker at or behind \<open>en\<close> is to leave no orphaned end
  marker. The code does not keep this. Its end-tag case says in its comment that the end
  marker is preserved unless the begin marker is in the removed range as well, but it
  compares the position of the begin marker with the active \<^verbatim>\<open>start\<close>, which an end
  marker preserved earlier in the same scan has moved, and not with the start of the
  call. The document \<open>orphanDoc\<close> is built by three calls of \<^verbatim>\<open>insertTags\<close> and holds
  no orphaned end marker. In \<^verbatim>\<open>remove(1, 5)\<close> the begin marker of range 3 lies at 4 and
  its end marker at 5, and the group holds the op for \<open>[5, 6)\<close>. The scan preserves the
  end marker of range 1 at 2 and moves the active start to 3; at the end marker of range
  2, at 3, the begin marker at 1 lies inside \<open>[1, 5)\<close> but before the active start, so
  the scan preserves this end marker too, with the empty op \<open>[3, 3)\<close>. The group removes
  the begin marker of range 2 at 1 with the op \<open>[1, 2)\<close>, and the document after it
  holds the end marker of range 2 without its begin marker.
\<close>

theorem remove_leaves_orphaned_end_marker:
  "insertTags [] [''b''] 0 0 ''1'' = Inr [beginMarker [''b''] ''1'', endMarker ''1''] \<and>
   insertTags [beginMarker [''b''] ''1'', endMarker ''1''] [''i''] 1 2 ''2'' = Inr overlappingTags \<and>
   insertTags overlappingTags [''u''] 4 4 ''3'' = Inr orphanDoc \<and>
   orphanedEnds orphanDoc = [] \<and>
   getDocSegmentKind (Some (orphanDoc ! 4)) = Inr beginTagsKind \<and>
   positionOf orphanDoc 4 = 4 \<and>
   getEnd orphanDoc (orphanDoc ! 4) = Inr (Some 5) \<and>
   positionOf orphanDoc 5 = 5 \<and>
   visitRange orphanDoc 1 5
     = [(1, orphanDoc ! 1, 0, 1), (2, orphanDoc ! 2, 0, 1), (3, orphanDoc ! 3, 0, 1),
        (4, orphanDoc ! 4, 0, 1)] \<and>
   removeLeaf orphanDoc 5 (1, orphanDoc ! 1, 0, 1) ([], 1) = Inr ([], 1) \<and>
   removeLeaf orphanDoc 5 (2, orphanDoc ! 2, 0, 1) ([], 1) = Inr ([(1, 2)], 3) \<and>
   getStart orphanDoc (orphanDoc ! 3) = Inr (Some 1) \<and>
   getPosition orphanDoc (Some 1) = 1 \<and>
   removeLeaf orphanDoc 5 (3, orphanDoc ! 3, 0, 1) ([(1, 2)], 3) = Inr ([(1, 2), (3, 3)], 4) \<and>
   removeLeaf orphanDoc 5 (4, orphanDoc ! 4, 0, 1) ([(1, 2), (3, 3)], 4)
     = Inr ([(1, 2), (3, 3), (5, 6)], 4) \<and>
   removeCalls orphanDoc 1 5
     = Inr [GroupOperation [RemoveRangeOp 5 6, RemoveRangeOp 4 5, RemoveRangeOp 3 3,
                            RemoveRangeOp 1 2]] \<and>
   remove orphanDoc 1 5 = Inr [beginMarker [''b''] ''1'', endMarker ''1'', endMarker ''2''] \<and>
   getStart [beginMarker [''b''] ''1'', endMarker ''1'', endMarker ''2''] (endMarker ''2'')
     = Inr None \<and>
   orphanedEnds [beginMarker [''b''] ''1'', endMarker ''1'', endMarker ''2''] = [endMarker ''2'']"
  by code_simp

text \<open>
  The same happens without the third range: in the overlapping ranges, \<^verbatim>\<open>remove(1, 4)\<close>
  preserves the end marker at 2, whose begin marker lies before 1, and then, with the
  active start at 3, also the end marker at 3, whose begin marker at 1 it removes. Both
  documents have well-formed tag markers.
\<close>

lemma remove_tests_active_start_example:
  "wellFormedTags overlappingTags \<and> wellFormedTags orphanDoc \<and>
   removeOps overlappingTags 1 4 = Inr [(3, 3), (1, 2)] \<and>
   remove overlappingTags 1 4 = Inr [beginMarker [''b''] ''1'', endMarker ''1'', endMarker ''2'']"
  by code_simp

section \<open>Claims about positions, segments and tag ranges\<close>

lemma containingSegmentAt_Some:
  "containingSegmentAt d p = Some (i, off) \<Longrightarrow>
     i < length d \<and> off < cachedLength (d ! i) \<and> positionOf d i + off = p"
proof (induction d arbitrary: p i)
  case Nil
  then show ?case by simp
next
  case (Cons x xs)
  show ?case
  proof (cases "p < cachedLength x")
    case True
    then show ?thesis using Cons.prems by (simp add: positionOf_0)
  next
    case False
    with Cons.prems obtain i' where i': "i = Suc i'"
      and rec: "containingSegmentAt xs (p - cachedLength x) = Some (i', off)"
      by auto
    from Cons.IH [OF rec] False i' show ?thesis by (auto simp: positionOf_Cons_Suc)
  qed
qed

lemma containingSegmentAt_defined:
  "p < getLength d \<Longrightarrow> \<exists>i off. containingSegmentAt d p = Some (i, off)"
proof (induction d arbitrary: p)
  case Nil
  then show ?case by (simp add: getLength_Nil)
next
  case (Cons x xs)
  show ?case
  proof (cases "p < cachedLength x")
    case True
    then show ?thesis by simp
  next
    case False
    then have "p - cachedLength x < getLength xs" using Cons.prems by (simp add: getLength_Cons)
    from Cons.IH [OF this] False show ?thesis by auto
  qed
qed

lemma getSegmentAndOffset_inside:
  assumes "p < getLength d"
  shows "\<exists>i off. getSegmentAndOffset d p = Inr (Some i, off) \<and> i < length d \<and>
           off < cachedLength (d ! i) \<and> positionOf d i + off = p"
proof -
  from containingSegmentAt_defined [OF assms] obtain i off where
    c: "containingSegmentAt d p = Some (i, off)" by blast
  from containingSegmentAt_Some [OF c] c assms show ?thesis
    by (simp add: getSegmentAndOffset_def getContainingSegment_def)
qed

text \<open>
  Claim C4, amended. For every position \<open>p\<close> of \<open>[0, length]\<close>,
  \<^verbatim>\<open>getSegmentAndOffset(p)\<close> returns a segment and an offset with
  \<^verbatim>\<open>getPosition(segment) + offset = p\<close>; the segment is the end-of-document sentinel
  exactly when \<open>p\<close> is the length, the offset is then 0, and \<^verbatim>\<open>getPosition\<close> maps the
  sentinel back to the length.
\<close>

theorem position_segment_offset_round_trip:
  assumes "p \<le> getLength d"
  shows "\<exists>segment offset. getSegmentAndOffset d p = Inr (segment, offset) \<and>
           getPosition d segment + offset = p \<and>
           (segment = None) = (p = getLength d) \<and>
           getSegmentAndOffset d (getLength d) = Inr (None, 0) \<and>
           getPosition d None = getLength d"
proof (cases "p = getLength d")
  case True
  then show ?thesis by (simp add: getSegmentAndOffset_def getPosition_def)
next
  case False
  then have "p < getLength d" using assms by simp
  from getSegmentAndOffset_inside [OF this] obtain i off where
    "getSegmentAndOffset d p = Inr (Some i, off)" "positionOf d i + off = p" by blast
  then show ?thesis using False by (simp add: getSegmentAndOffset_def getPosition_def)
qed

theorem position_segment_offset_round_trip_witness:
  "(1 :: nat) \<le> getLength textAB \<and>
   (\<exists>segment offset. getSegmentAndOffset textAB 1 = Inr (segment, offset) \<and>
           getPosition textAB segment + offset = 1 \<and>
           (segment = None) = (1 = getLength textAB) \<and>
           getSegmentAndOffset textAB (getLength textAB) = Inr (None, 0) \<and>
           getPosition textAB None = getLength textAB)"
proof -
  have le: "(1 :: nat) \<le> getLength textAB" by code_simp
  from position_segment_offset_round_trip [OF le] le show ?thesis by (intro conjI) assumption+
qed

theorem segment_round_trip_counterexample:
  "(1 :: nat) \<le> getLength textAB \<and> getSegmentAndOffset textAB 1 = Inr (Some 0, 1) \<and>
   getPosition textAB (Some 0) = 0 \<and> segmentRoundTrip textAB 1 = Inr 0 \<and>
   segmentRoundTrip textAB 1 \<noteq> Inr 1"
  by code_simp

lemma insertAt_defined:
  "p \<le> getLength d \<Longrightarrow>
     \<exists>d'. insertAt d p s = Some d' \<and> getLength d' = getLength d + cachedLength s"
proof (induction d arbitrary: p)
  case Nil
  then show ?case by (simp add: getLength_Nil getLength_Cons)
next
  case (Cons x xs)
  show ?case
  proof (cases "p = 0")
    case True
    then show ?thesis by (simp add: getLength_Cons)
  next
    case False
    show ?thesis
    proof (cases "p < cachedLength x")
      case True
      then obtain t ps where x: "x = TextSegment t ps" using False by (cases x) auto
      have "length (take p t) + length (drop p t) = length t" by simp
      then show ?thesis using True False x by (simp add: getLength_Cons min_def)
    next
      case ge: False
      then have "p - cachedLength x \<le> getLength xs" using Cons.prems by (simp add: getLength_Cons)
      from Cons.IH [OF this] obtain d' where
        "insertAt xs (p - cachedLength x) s = Some d'"
        "getLength d' = getLength xs + cachedLength s" by blast
      then show ?thesis using False ge by (simp add: getLength_Cons)
    qed
  qed
qed

lemma insertAt_set:
  "insertAt d p s = Some d' \<Longrightarrow>
     s \<in> set d' \<and> (\<forall>x\<in>set d'. x = s \<or> x \<in> set d \<or> \<not> isMarker x) \<and>
     (\<forall>x\<in>set d. isMarker x \<longrightarrow> x \<in> set d')"
proof (induction d arbitrary: p d')
  case Nil
  then show ?case by (auto split: if_splits)
next
  case (Cons x xs)
  show ?case
  proof (cases "p = 0")
    case True
    then show ?thesis using Cons.prems by auto
  next
    case False
    show ?thesis
    proof (cases "p < cachedLength x")
      case True
      then obtain t ps where x: "x = TextSegment t ps" using False by (cases x) auto
      then show ?thesis using True False Cons.prems by auto
    next
      case ge: False
      with False Cons.prems obtain d1 where
        rec: "insertAt xs (p - cachedLength x) s = Some d1" and d': "d' = x # d1"
        by auto
      from Cons.IH [OF rec] d' show ?thesis by auto
    qed
  qed
qed

lemma idToSegment_defined:
  "x \<in> set d \<Longrightarrow> getId x = Some key \<Longrightarrow> \<exists>i. idToSegment d key = Some i"
  by (induction d) auto

lemma markerIds_mem: "x \<in> set d \<Longrightarrow> getId x = Some key \<Longrightarrow> key \<in> set (markerIds d)"
  by (force simp: markerIds_def List.map_filter_def)

lemma getId_endMarker: "getId (endMarker k) = Some (''end-'' @ k)"
  by (simp add: endMarker_def tagsProperties_def)

lemma getId_beginMarker: "getId (beginMarker tgs k) = Some (''begin-'' @ k)"
  by (simp add: beginMarker_def tagsProperties_def)

lemma kind_beginMarker: "getDocSegmentKind (Some (beginMarker tgs k)) = Inr beginTagsKind"
  by (simp add: beginMarker_def tagsProperties_def tilesAndRanges_def)

lemma kind_endMarker: "getDocSegmentKind (Some (endMarker k)) = Inr endTagsKind"
  by (simp add: endMarker_def tagsProperties_def)

lemma getEnd_beginMarker: "getEnd d (beginMarker tgs k) = Inr (idToSegment d (''end-'' @ k))"
  by (simp add: getEnd_def getOppositeMarker_def getId_beginMarker)

lemma getStart_endMarker: "getStart d (endMarker k) = Inr (idToSegment d (''begin-'' @ k))"
  by (simp add: getStart_def getOppositeMarker_def getId_endMarker)

lemma units_textPieces:
  "units (TextSegment (take p t) ps # s # TextSegment (drop p t) ps # xs)
     = take p (unitsOf (TextSegment t ps)) @ unitsOf s @ drop p (unitsOf (TextSegment t ps)) @ units xs"
  by (simp add: units_Cons take_map drop_map)

lemma units_insertAt:
  "insertAt d p s = Some d' \<Longrightarrow> units d' = take p (units d) @ unitsOf s @ drop p (units d)"
proof (induction d arbitrary: p d')
  case Nil
  then show ?case by (auto simp: units_Cons units_Nil split: if_splits)
next
  case (Cons x xs)
  show ?case
  proof (cases "p = 0")
    case True
    then show ?thesis using Cons.prems by (auto simp: units_Cons)
  next
    case False
    show ?thesis
    proof (cases "p < cachedLength x")
      case True
      then obtain t ps where x: "x = TextSegment t ps" using False by (cases x) auto
      have d': "d' = TextSegment (take p t) ps # s # TextSegment (drop p t) ps # xs"
        using Cons.prems True False x by simp
      have "p < length (unitsOf x)" using True by (simp add: length_unitsOf)
      then show ?thesis unfolding d' units_textPieces using x by (simp add: units_Cons)
    next
      case ge: False
      with False Cons.prems obtain d1 where
        rec: "insertAt xs (p - cachedLength x) s = Some d1" and d': "d' = x # d1"
        by auto
      have "length (unitsOf x) \<le> p" using ge by (simp add: length_unitsOf)
      then show ?thesis using Cons.IH [OF rec] d' by (simp add: units_Cons length_unitsOf)
    qed
  qed
qed

lemma insertTags_units:
  assumes pos: "start \<le> en" "en \<le> getLength d"
  shows "\<exists>d'. insertTags d tgs start en k = Inr d' \<and>
           units d' = take start (units d) @ [beginMarker tgs k] @
             drop start (take en (units d)) @ [endMarker k] @ drop en (units d)"
proof -
  from insertAt_defined [OF pos(2), of "endMarker k"] obtain d1 where
    d1: "insertAt d en (endMarker k) = Some d1" and
    l1: "getLength d1 = getLength d + cachedLength (endMarker k)" by blast
  have "start \<le> getLength d1" using pos l1 by simp
  from insertAt_defined [OF this, of "beginMarker tgs k"] obtain d2 where
    d2: "insertAt d1 start (beginMarker tgs k) = Some d2" by blast
  have ins: "insertTags d tgs start en k = Inr d2"
    using d1 d2 by (simp add: insertTags_def insertTagsOps_def insertSegment_def)
  have u1: "units d1 = take en (units d) @ [endMarker k] @ drop en (units d)"
    using units_insertAt [OF d1] by (simp add: endMarker_def)
  have u2: "units d2 = take start (units d1) @ [beginMarker tgs k] @ drop start (units d1)"
    using units_insertAt [OF d2] by (simp add: beginMarker_def)
  have len: "en \<le> length (units d)" using pos by (simp add: length_units)
  have "take start (units d1) = take start (units d)"
    unfolding u1 using pos len by simp
  moreover have "drop start (units d1)
      = drop start (take en (units d)) @ [endMarker k] @ drop en (units d)"
    unfolding u1 using pos len by simp
  ultimately show ?thesis using ins u2 by simp
qed

lemma insertTags_positions:
  assumes pos: "start \<le> en" "en \<le> getLength d"
  shows "\<exists>d'. insertTags d tgs start en k = Inr d' \<and> getLength d' = getLength d + 2 \<and>
           units d' ! start = beginMarker tgs k \<and> units d' ! (en + 1) = endMarker k"
proof -
  from insertTags_units [OF pos] obtain d' where
    ins: "insertTags d tgs start en k = Inr d'" and
    u: "units d' = take start (units d) @ [beginMarker tgs k] @
             drop start (take en (units d)) @ [endMarker k] @ drop en (units d)" by blast
  have len: "en \<le> length (units d)" using pos by (simp add: length_units)
  have l: "length (take start (units d)) = start" using pos len by simp
  have b: "units d' ! start = beginMarker tgs k"
    unfolding u using l by (metis append_Cons append_Nil nth_append_length)
  have "units d' = (take start (units d) @ [beginMarker tgs k] @ drop start (take en (units d)))
      @ endMarker k # drop en (units d)" unfolding u by simp
  moreover have "length (take start (units d) @ [beginMarker tgs k] @ drop start (take en (units d)))
      = en + 1" using pos len by simp
  ultimately have e: "units d' ! (en + 1) = endMarker k" by (metis nth_append_length)
  have "length (units d') = length (units d) + 2" unfolding u using pos len by simp
  then have "getLength d' = getLength d + 2" by (simp add: length_units)
  then show ?thesis using ins b e by blast
qed

text \<open>
  Claim C5. \<^verbatim>\<open>insertTags(tags, start, end)\<close> makes one call on the shared string, a single
  group of two ops: first the op inserting the end marker at \<open>en\<close>, then the op inserting
  the begin marker at \<open>start\<close>. The two markers are a begin-tags and an end-tags marker
  and carry the ids \<^verbatim>\<open>begin-\<close> and \<^verbatim>\<open>end-\<close> followed by the one generated id. With
  \<open>start \<le> en\<close> within the length the group applies, and in the document after it the
  begin marker is the unit at \<open>start\<close> and the end marker the unit at \<open>en + 1\<close>: in
  this order neither position needs to be compensated.
\<close>

theorem insertTags_one_group_end_before_begin:
  "insertTagsCalls tgs start en k
     = [GroupOperation [InsertSegmentOp en (endMarker k), InsertSegmentOp start (beginMarker tgs k)]] \<and>
   insertTags d tgs start en k
     = groupOperation d [InsertSegmentOp en (endMarker k), InsertSegmentOp start (beginMarker tgs k)] \<and>
   getId (endMarker k) = Some (''end-'' @ k) \<and>
   getId (beginMarker tgs k) = Some (''begin-'' @ k) \<and>
   getDocSegmentKind (Some (beginMarker tgs k)) = Inr beginTagsKind \<and>
   getDocSegmentKind (Some (endMarker k)) = Inr endTagsKind \<and>
   tags (properties (beginMarker tgs k)) = tgs \<and>
   (start \<le> en \<and> en \<le> getLength d \<longrightarrow>
      (\<exists>d'. insertTags d tgs start en k = Inr d' \<and> getLength d' = getLength d + 2 \<and>
         units d' ! start = beginMarker tgs k \<and> units d' ! (en + 1) = endMarker k))"
proof -
  have "insertTagsCalls tgs start en k
     = [GroupOperation [InsertSegmentOp en (endMarker k), InsertSegmentOp start (beginMarker tgs k)]]"
    by (simp add: insertTagsCalls_def insertTagsOps_def)
  moreover have "insertTags d tgs start en k
     = groupOperation d [InsertSegmentOp en (endMarker k), InsertSegmentOp start (beginMarker tgs k)]"
    by (simp add: insertTags_def insertTagsOps_def)
  moreover have "tags (properties (beginMarker tgs k)) = tgs" by (simp add: beginMarker_def)
  moreover have "start \<le> en \<and> en \<le> getLength d \<longrightarrow>
      (\<exists>d'. insertTags d tgs start en k = Inr d' \<and> getLength d' = getLength d + 2 \<and>
         units d' ! start = beginMarker tgs k \<and> units d' ! (en + 1) = endMarker k)"
    using insertTags_positions [of start en d tgs k] by blast
  ultimately show ?thesis
    using getId_endMarker getId_beginMarker kind_beginMarker kind_endMarker by blast
qed

theorem insertTags_one_group_end_before_begin_witness:
  "(0 :: nat) \<le> 2 \<and> 2 \<le> getLength textAB \<and>
   insertTags textAB [''b''] 0 2 ''7''
     = Inr [beginMarker [''b''] ''7'', TextSegment ''AB'' emptyProps, endMarker ''7''] \<and>
   insertTagsCalls [''b''] 0 2 ''7''
     = [GroupOperation [InsertSegmentOp 2 (endMarker ''7''),
                        InsertSegmentOp 0 (beginMarker [''b''] ''7'')]] \<and>
   (\<exists>d'. insertTags textAB [''b''] 0 2 ''7'' = Inr d' \<and> getLength d' = getLength textAB + 2 \<and>
         units d' ! 0 = beginMarker [''b''] ''7'' \<and> units d' ! (2 + 1) = endMarker ''7'')"
proof -
  have pos: "(0 :: nat) \<le> 2" "2 \<le> getLength textAB" by code_simp+
  have res: "insertTags textAB [''b''] 0 2 ''7''
     = Inr [beginMarker [''b''] ''7'', TextSegment ''AB'' emptyProps, endMarker ''7'']"
    by code_simp
  note t = insertTags_one_group_end_before_begin [of "[''b'']" 0 2 "''7''" textAB]
  from t have c: "insertTagsCalls [''b''] 0 2 ''7''
     = [GroupOperation [InsertSegmentOp 2 (endMarker ''7''),
                        InsertSegmentOp 0 (beginMarker [''b''] ''7'')]]" by blast
  from t pos have e: "\<exists>d'. insertTags textAB [''b''] 0 2 ''7'' = Inr d' \<and>
         getLength d' = getLength textAB + 2 \<and>
         units d' ! 0 = beginMarker [''b''] ''7'' \<and> units d' ! (2 + 1) = endMarker ''7''" by blast
  from pos res c e show ?thesis by (intro conjI) assumption+
qed

text \<open>
  Claim C10. After \<^verbatim>\<open>insertTags\<close> with an id that no marker of the document carries
  yet as \<^verbatim>\<open>begin-\<close>id or \<^verbatim>\<open>end-\<close>id, and with both positions within the length, the
  document holds the two new markers, \<^verbatim>\<open>getEnd\<close> of the begin marker is the end marker
  (id \<^verbatim>\<open>end-\<close>id) and \<^verbatim>\<open>getStart\<close> of that end marker is the begin marker again
  (id \<^verbatim>\<open>begin-\<close>id).
\<close>

theorem insertTags_opposite_marker_round_trip:
  assumes pos: "start \<le> getLength d" "en \<le> getLength d"
    and fresh: "''begin-'' @ k \<notin> set (markerIds d)" "''end-'' @ k \<notin> set (markerIds d)"
  shows "\<exists>d' ib ie. insertTags d tgs start en k = Inr d' \<and> ib < length d' \<and> ie < length d' \<and>
           d' ! ib = beginMarker tgs k \<and> d' ! ie = endMarker k \<and>
           getEnd d' (d' ! ib) = Inr (Some ie) \<and> getId (d' ! ie) = Some (''end-'' @ k) \<and>
           getStart d' (d' ! ie) = Inr (Some ib) \<and> getId (d' ! ib) = Some (''begin-'' @ k)"
proof -
  from insertAt_defined [OF pos(2), of "endMarker k"] obtain d1 where
    d1: "insertAt d en (endMarker k) = Some d1" and
    l1: "getLength d1 = getLength d + cachedLength (endMarker k)" by blast
  have "start \<le> getLength d1" using pos(1) l1 by simp
  from insertAt_defined [OF this, of "beginMarker tgs k"] obtain d2 where
    d2: "insertAt d1 start (beginMarker tgs k) = Some d2" by blast
  have ins: "insertTags d tgs start en k = Inr d2"
    using d1 d2 by (simp add: insertTags_def insertTagsOps_def insertSegment_def)
  note s1 = insertAt_set [OF d1] and s2 = insertAt_set [OF d2]
  have mkE: "isMarker (endMarker k)" by (simp add: endMarker_def)
  have inB: "beginMarker tgs k \<in> set d2" using s2 by simp
  have inE: "endMarker k \<in> set d2" using s1 s2 mkE by blast
  have origin: "x = beginMarker tgs k \<or> x = endMarker k \<or> x \<in> set d \<or> \<not> isMarker x"
    if "x \<in> set d2" for x
    using that s1 s2 by blast
  have only: "x = beginMarker tgs k \<or> x = endMarker k"
    if x: "x \<in> set d2" and xid: "getId x = Some (''begin-'' @ k) \<or> getId x = Some (''end-'' @ k)" for x
  proof -
    from origin [OF x] consider "x = beginMarker tgs k" | "x = endMarker k" | "x \<in> set d"
      | "\<not> isMarker x" by blast
    then show ?thesis
    proof cases
      case 3
      then show ?thesis using xid fresh markerIds_mem [of x d] by auto
    next
      case 4
      then have "getId x = None" by (cases x) simp_all
      then show ?thesis using xid by auto
    qed simp_all
  qed
  from idToSegment_defined [OF inE getId_endMarker] obtain ie where
    ie: "idToSegment d2 (''end-'' @ k) = Some ie" by blast
  from idToSegment_defined [OF inB getId_beginMarker] obtain ib where
    ib: "idToSegment d2 (''begin-'' @ k) = Some ib" by blast
  note e = idToSegment_Some [OF ie] and b = idToSegment_Some [OF ib]
  have "d2 ! ie = beginMarker tgs k \<or> d2 ! ie = endMarker k"
    using only [of "d2 ! ie"] e by simp
  then have dE: "d2 ! ie = endMarker k" using e by (auto simp: getId_beginMarker)
  have "d2 ! ib = beginMarker tgs k \<or> d2 ! ib = endMarker k"
    using only [of "d2 ! ib"] b by simp
  then have dB: "d2 ! ib = beginMarker tgs k" using b by (auto simp: getId_endMarker)
  have "getEnd d2 (d2 ! ib) = Inr (Some ie)" using dB ie by (simp add: getEnd_beginMarker)
  moreover have "getStart d2 (d2 ! ie) = Inr (Some ib)" using dE ib by (simp add: getStart_endMarker)
  ultimately show ?thesis using ins e b dE dB by blast
qed

theorem insertTags_opposite_marker_round_trip_witness:
  "(0 :: nat) \<le> getLength textAB \<and> (2 :: nat) \<le> getLength textAB \<and>
   ''begin-'' @ ''7'' \<notin> set (markerIds textAB) \<and> ''end-'' @ ''7'' \<notin> set (markerIds textAB) \<and>
   insertTags textAB [''b''] 0 2 ''7''
     = Inr [beginMarker [''b''] ''7'', TextSegment ''AB'' emptyProps, endMarker ''7''] \<and>
   (\<exists>d' ib ie. insertTags textAB [''b''] 0 2 ''7'' = Inr d' \<and> ib < length d' \<and> ie < length d' \<and>
           d' ! ib = beginMarker [''b''] ''7'' \<and> d' ! ie = endMarker ''7'' \<and>
           getEnd d' (d' ! ib) = Inr (Some ie) \<and> getId (d' ! ie) = Some (''end-'' @ ''7'') \<and>
           getStart d' (d' ! ie) = Inr (Some ib) \<and> getId (d' ! ib) = Some (''begin-'' @ ''7''))"
proof -
  have pos: "(0 :: nat) \<le> getLength textAB" "(2 :: nat) \<le> getLength textAB" by code_simp+
  have fresh: "''begin-'' @ ''7'' \<notin> set (markerIds textAB)"
    "''end-'' @ ''7'' \<notin> set (markerIds textAB)" by code_simp+
  have res: "insertTags textAB [''b''] 0 2 ''7''
     = Inr [beginMarker [''b''] ''7'', TextSegment ''AB'' emptyProps, endMarker ''7'']"
    by code_simp
  from insertTags_opposite_marker_round_trip [OF pos fresh, of "[''b'']"] pos fresh res
  show ?thesis by (intro conjI) assumption+
qed

section \<open>Claims about local references and the caret\<close>

lemma containingSegmentAt_inside:
  "i < length d \<Longrightarrow> off < cachedLength (d ! i) \<Longrightarrow>
     containingSegmentAt d (positionOf d i + off) = Some (i, off)"
proof (induction d arbitrary: i)
  case Nil
  then show ?case by simp
next
  case (Cons x xs)
  show ?case
  proof (cases i)
    case 0
    then show ?thesis using Cons.prems by (simp add: positionOf_0)
  next
    case (Suc i')
    then have "containingSegmentAt xs (positionOf xs i' + off) = Some (i', off)"
      using Cons.prems by (intro Cons.IH) simp_all
    then show ?thesis using Suc by (simp add: positionOf_Cons_Suc add.assoc)
  qed
qed

lemma validRef_position_le:
  assumes "validRef d r"
  shows "localRefToPosition d r \<le> getLength d"
proof (cases "refSegment r")
  case None
  then show ?thesis by (simp add: localRefToPosition_def)
next
  case (Some i)
  then have i: "i < length d" "refOffset r < cachedLength (d ! i)"
    using assms by (simp_all add: validRef_def)
  have "positionOf d (Suc i) \<le> positionOf d (length d)"
    using i(1) by (intro positionOf_mono) simp
  then show ?thesis
    using Some i positionOf_Suc [OF i(1)]
    by (simp add: localRefToPosition_def toPosition_def positionOf_length)
qed

lemma validRef_bound_lt:
  assumes "validRef d r" "refSegment r = Some i"
  shows "localRefToPosition d r < getLength d"
proof -
  have i: "i < length d" "refOffset r < cachedLength (d ! i)"
    using assms by (simp_all add: validRef_def)
  have "positionOf d (Suc i) \<le> positionOf d (length d)"
    using i(1) by (intro positionOf_mono) simp
  then show ?thesis
    using assms(2) i positionOf_Suc [OF i(1)]
    by (simp add: localRefToPosition_def toPosition_def positionOf_length)
qed

lemma getLength_removeUnits:
  assumes "a \<le> b" "b \<le> getLength d"
  shows "getLength (removeUnits d a b) = getLength d - (b - a)"
proof -
  have "length (units (removeUnits d a b)) = length (take a (units d) @ drop b (units d))"
    using units_removeUnits [OF assms(1)] by simp
  then show ?thesis using assms by (simp add: length_units)
qed

lemma slide_resolves:
  assumes v: "validRef d r" and ab: "a \<le> b" "b \<le> getLength d"
  shows "validRef (removeUnits d a b) (slideOnRemove d a b r) \<and>
         localRefToPosition (removeUnits d a b) (slideOnRemove d a b r)
           = (case refSegment r of None \<Rightarrow> getLength (removeUnits d a b)
              | Some i \<Rightarrow> slidPosition a b (localRefToPosition d r))"
proof (cases "refSegment r")
  case None
  then show ?thesis by (simp add: slideOnRemove_def validRef_def localRefToPosition_def)
next
  case (Some i)
  define d' where "d' = removeUnits d a b"
  define q where "q = localRefToPosition d r"
  define q' where "q' = slidPosition a b q"
  have q: "q = toPosition d i (refOffset r)" using Some by (simp add: q_def localRefToPosition_def)
  have lt: "q < getLength d" unfolding q_def using v Some by (rule validRef_bound_lt)
  have len: "getLength d' = getLength d - (b - a)"
    unfolding d'_def using ab by (rule getLength_removeUnits)
  have q'le: "q' \<le> getLength d'" using lt ab len by (auto simp: q'_def slidPosition_def)
  show ?thesis
  proof (cases "containingSegmentAt d' q'")
    case None
    have "\<not> q' < getLength d'" using containingSegmentAt_defined [of q' d'] None by auto
    then have "q' = getLength d'" using q'le by simp
    then show ?thesis
      using Some None q
      by (simp add: slideOnRemove_def validRef_def localRefToPosition_def d'_def q'_def q_def)
  next
    case found: (Some io)
    obtain i' off' where io: "io = (i', off')" by (cases io)
    from containingSegmentAt_Some [of d' q' i' off'] found io
    have "i' < length d'" "off' < cachedLength (d' ! i')" "positionOf d' i' + off' = q'"
      by simp_all
    then show ?thesis
      using Some found io q
      by (simp add: slideOnRemove_def validRef_def localRefToPosition_def toPosition_def
          d'_def q'_def q_def)
  qed
qed

lemma addLocalRef_end: "getLength d \<le> p \<Longrightarrow> addLocalRef d p = Inr (endOfTextRef, [])"
  by (simp add: addLocalRef_def)

lemma addLocalRef_inside:
  assumes "p < getLength d"
  shows "\<exists>i off. getSegmentAndOffset d p = Inr (Some i, off) \<and> i < length d \<and>
           off < cachedLength (d ! i) \<and> positionOf d i + off = p \<and>
           addLocalRef d p
             = Inr (\<lparr> refSegment = Some i, refOffset = off, refType = SlideOnRemove \<rparr>,
                    [\<lparr> refSegment = Some i, refOffset = off, refType = SlideOnRemove \<rparr>])"
proof -
  from getSegmentAndOffset_inside [OF assms] obtain i off where
    g: "getSegmentAndOffset d p = Inr (Some i, off)" "i < length d" "off < cachedLength (d ! i)"
      "positionOf d i + off = p" by blast
  then show ?thesis using assms by (simp add: addLocalRef_def Let_def)
qed

text \<open>
  Claim C7. \<^verbatim>\<open>addLocalRef(p)\<close> with \<open>p\<close> at or beyond the length returns the
  end-of-document reference and registers nothing; otherwise it registers the
  slide-on-remove reference at the segment and offset \<^verbatim>\<open>getSegmentAndOffset(p)\<close> gives.
  Either reference is bound in the document and resolves to \<open>p\<close>, cut at the length.
  \<^verbatim>\<open>localRefToPosition\<close> is a total function: the end-of-document reference resolves to
  the length, a bound reference never resolves beyond the length, and after the store
  removed a range, the anchored segment included, the reference as the store's slide
  policy leaves it is bound again and resolves within the new length.
\<close>

theorem localRef_create_and_resolve:
  assumes v: "validRef d r" and ab: "a \<le> b" "b \<le> getLength d"
  shows "(\<exists>ref regs. addLocalRef d p = Inr (ref, regs) \<and> validRef d ref \<and>
            localRefToPosition d ref = min p (getLength d) \<and>
            (if getLength d \<le> p then ref = endOfTextRef \<and> regs = []
             else regs = [ref] \<and> refType ref = SlideOnRemove \<and> refSegment ref \<noteq> None \<and>
                  getSegmentAndOffset d p = Inr (refSegment ref, refOffset ref))) \<and>
         localRefToPosition d endOfTextRef = getLength d \<and>
         localRefToPosition d r \<le> getLength d \<and>
         removeRange d a b = Inr (removeUnits d a b) \<and>
         validRef (removeUnits d a b) (slideOnRemove d a b r) \<and>
         localRefToPosition (removeUnits d a b) (slideOnRemove d a b r)
           \<le> getLength (removeUnits d a b)"
proof -
  have create: "\<exists>ref regs. addLocalRef d p = Inr (ref, regs) \<and> validRef d ref \<and>
            localRefToPosition d ref = min p (getLength d) \<and>
            (if getLength d \<le> p then ref = endOfTextRef \<and> regs = []
             else regs = [ref] \<and> refType ref = SlideOnRemove \<and> refSegment ref \<noteq> None \<and>
                  getSegmentAndOffset d p = Inr (refSegment ref, refOffset ref))"
  proof (cases "getLength d \<le> p")
    case True
    then show ?thesis
      using addLocalRef_end [OF True]
      by (simp add: validRef_def endOfTextRef_def localRefToPosition_def min_def)
  next
    case False
    then have "p < getLength d" by simp
    from addLocalRef_inside [OF this] obtain i off where
      g: "getSegmentAndOffset d p = Inr (Some i, off)" "i < length d" "off < cachedLength (d ! i)"
        "positionOf d i + off = p"
        "addLocalRef d p
             = Inr (\<lparr> refSegment = Some i, refOffset = off, refType = SlideOnRemove \<rparr>,
                    [\<lparr> refSegment = Some i, refOffset = off, refType = SlideOnRemove \<rparr>])"
      by blast
    then show ?thesis
      using False by (simp add: validRef_def localRefToPosition_def toPosition_def min_def)
  qed
  have eot: "localRefToPosition d endOfTextRef = getLength d"
    by (simp add: localRefToPosition_def endOfTextRef_def)
  have rm: "removeRange d a b = Inr (removeUnits d a b)" using ab by (simp add: removeRange_def)
  have slid: "validRef (removeUnits d a b) (slideOnRemove d a b r)"
    using slide_resolves [OF v ab] by simp
  from create eot validRef_position_le [OF v] rm slid validRef_position_le [OF slid]
  show ?thesis by (intro conjI) assumption+
qed

theorem localRef_create_and_resolve_witness:
  "validRef textAB refInAB \<and> (0 :: nat) \<le> 2 \<and> 2 \<le> getLength textAB \<and>
   addLocalRef textAB 1 = Inr (refInAB, [refInAB]) \<and>
   addLocalRef textAB 2 = Inr (endOfTextRef, []) \<and>
   removeUnits textAB 0 2 = [] \<and>
   slideOnRemove textAB 0 2 refInAB = \<lparr> refSegment = None, refOffset = 0, refType = SlideOnRemove \<rparr> \<and>
   ((\<exists>ref regs. addLocalRef textAB 1 = Inr (ref, regs) \<and> validRef textAB ref \<and>
            localRefToPosition textAB ref = min 1 (getLength textAB) \<and>
            (if getLength textAB \<le> 1 then ref = endOfTextRef \<and> regs = []
             else regs = [ref] \<and> refType ref = SlideOnRemove \<and> refSegment ref \<noteq> None \<and>
                  getSegmentAndOffset textAB 1 = Inr (refSegment ref, refOffset ref))) \<and>
         localRefToPosition textAB endOfTextRef = getLength textAB \<and>
         localRefToPosition textAB refInAB \<le> getLength textAB \<and>
         removeRange textAB 0 2 = Inr (removeUnits textAB 0 2) \<and>
         validRef (removeUnits textAB 0 2) (slideOnRemove textAB 0 2 refInAB) \<and>
         localRefToPosition (removeUnits textAB 0 2) (slideOnRemove textAB 0 2 refInAB)
           \<le> getLength (removeUnits textAB 0 2))"
proof -
  have v: "validRef textAB refInAB" by code_simp
  have ab: "(0 :: nat) \<le> 2" "2 \<le> getLength textAB" by code_simp+
  have c1: "addLocalRef textAB 1 = Inr (refInAB, [refInAB])" by code_simp
  have c2: "addLocalRef textAB 2 = Inr (endOfTextRef, [])" by code_simp
  have r: "removeUnits textAB 0 2 = []" by code_simp
  have s: "slideOnRemove textAB 0 2 refInAB
      = \<lparr> refSegment = None, refOffset = 0, refType = SlideOnRemove \<rparr>" by code_simp
  from localRef_create_and_resolve [OF v ab, of 1] v ab c1 c2 r s
  show ?thesis by (elim conjE, intro conjI) assumption+
qed

lemma kind_text_iff: "getDocSegmentKind (Some x) = Inr textKind \<longleftrightarrow> \<not> isMarker x"
  by (cases x)
    (auto simp: tilesAndRanges_def Let_def split: option.splits if_splits)

lemma kind_error: "getDocSegmentKind s = Inl err \<Longrightarrow> err = AssertionError"
proof (cases s)
  case None
  then show "getDocSegmentKind s = Inl err \<Longrightarrow> err = AssertionError" by simp
next
  case (Some x)
  then show "getDocSegmentKind s = Inl err \<Longrightarrow> err = AssertionError"
    by (cases x) (auto simp: Let_def split: option.splits if_splits)
qed

lemma knownKinds_kind:
  assumes "knownKinds d" "j < length d"
  shows "\<exists>k. getDocSegmentKind (Some (d ! j)) = Inr k"
proof (cases "getDocSegmentKind (Some (d ! j))")
  case (Inl err)
  then have "getDocSegmentKind (Some (d ! j)) = Inl AssertionError" using kind_error by blast
  moreover have "getDocSegmentKind (Some (d ! j)) \<noteq> Inl AssertionError"
    using assms by (simp add: knownKinds_def list_all_length)
  ultimately show ?thesis by simp
next
  case (Inr k)
  then show ?thesis by blast
qed

lemma positionOf_le_length: "positionOf d i \<le> getLength d"
proof (cases "i \<le> length d")
  case True
  then show ?thesis using positionOf_mono [of i "length d" d] by (simp add: positionOf_length)
next
  case False
  then show ?thesis by (simp add: positionOf_def)
qed

lemma left_segment_at_boundary:
  assumes pos: "0 < positionOf d i"
  shows "\<exists>j. j < length d \<and> 0 < cachedLength (d ! j) \<and>
           getSegmentAndOffset d (positionOf d i - 1) = Inr (Some j, cachedLength (d ! j) - 1) \<and>
           positionOf d j + cachedLength (d ! j) = positionOf d i"
proof -
  have lt: "positionOf d i - 1 < getLength d" using pos positionOf_le_length [of d i] by simp
  from getSegmentAndOffset_inside [OF lt] obtain j off where
    g: "getSegmentAndOffset d (positionOf d i - 1) = Inr (Some j, off)" "j < length d"
      "off < cachedLength (d ! j)" "positionOf d j + off = positionOf d i - 1" by blast
  have "j < i"
  proof (rule ccontr)
    assume "\<not> j < i"
    then have "positionOf d i \<le> positionOf d j" by (intro positionOf_mono) simp
    then show False using g(4) pos by simp
  qed
  then have "positionOf d (Suc j) \<le> positionOf d i" by (intro positionOf_mono) simp
  then have "positionOf d j + cachedLength (d ! j) = positionOf d i"
    using positionOf_Suc [OF g(2)] g(3,4) pos by simp
  moreover from this have "off = cachedLength (d ! j) - 1" using g(3,4) pos by simp
  ultimately show ?thesis using g by auto
qed

lemma leftTarget:
  assumes kk: "knownKinds d" and pos: "0 < positionOf d i"
  shows "\<exists>j. j < length d \<and> positionOf d j + cachedLength (d ! j) = positionOf d i \<and>
           (case getSegmentAndOffset d (positionOf d i - 1) of
              Inl err \<Rightarrow> Inl err
            | Inr (leftSegment, leftOffset) \<Rightarrow>
                (case getDocSegmentKind (segmentOf d leftSegment) of
                   Inl err \<Rightarrow> Inl err
                 | Inr leftKind \<Rightarrow>
                     (let delta = (if leftKind = textKind then 1 else 0)
                      in Inr (leftSegment, leftOffset + delta))))
           = Inr (Some j, if getDocSegmentKind (Some (d ! j)) = Inr textKind
                          then cachedLength (d ! j) else 0)"
proof -
  from left_segment_at_boundary [OF pos] obtain j where
    j: "j < length d" "0 < cachedLength (d ! j)"
      "getSegmentAndOffset d (positionOf d i - 1) = Inr (Some j, cachedLength (d ! j) - 1)"
      "positionOf d j + cachedLength (d ! j) = positionOf d i" by blast
  from knownKinds_kind [OF kk j(1)] obtain k where k: "getDocSegmentKind (Some (d ! j)) = Inr k"
    by blast
  have "cachedLength (d ! j) = 1" if "k \<noteq> textKind"
    using that k kind_text_iff [of "d ! j"] isMarker_length [of "d ! j"] by auto
  then show ?thesis using j k by (auto simp: segmentOf_def Let_def)
qed

text \<open>
  What \<^verbatim>\<open>Caret.positionToNodeOffset\<close> hands to the layout, for a reference bound in a
  document whose markers all have a known kind: the owning segment and offset when the
  position is 0 or the owning segment is text, and otherwise the segment that ends at
  the position, with its length when it is text and with 0 when it is not.
\<close>

lemma positionToNodeOffsetTarget_cases:
  assumes v: "validRef d ref" and kk: "knownKinds d"
  shows "\<exists>seg off. getSegmentAndOffset d (localRefToPosition d ref) = Inr (seg, off) \<and>
     (if localRefToPosition d ref = 0 \<or> getDocSegmentKind (segmentOf d seg) = Inr textKind
      then positionToNodeOffsetTarget d ref = Inr (seg, off)
      else \<exists>j. j < length d \<and>
             positionOf d j + cachedLength (d ! j) = localRefToPosition d ref \<and>
             positionToNodeOffsetTarget d ref
               = Inr (Some j, if getDocSegmentKind (Some (d ! j)) = Inr textKind
                              then cachedLength (d ! j) else 0))"
proof (cases "refSegment ref")
  case None
  have p: "localRefToPosition d ref = positionOf d (length d)"
    using None by (simp add: localRefToPosition_def positionOf_length)
  have g: "getSegmentAndOffset d (positionOf d (length d)) = Inr (None, 0)"
    by (simp add: getSegmentAndOffset_def positionOf_length)
  show ?thesis
  proof (cases "positionOf d (length d) = 0")
    case True
    then show ?thesis
      using None p g by (simp add: positionToNodeOffsetTarget_def segmentOf_def)
  next
    case False
    then have "0 < positionOf d (length d)" by simp
    from leftTarget [OF kk this] obtain j where
      "j < length d" "positionOf d j + cachedLength (d ! j) = positionOf d (length d)"
      "(case getSegmentAndOffset d (positionOf d (length d) - 1) of
              Inl err \<Rightarrow> Inl err
            | Inr (leftSegment, leftOffset) \<Rightarrow>
                (case getDocSegmentKind (segmentOf d leftSegment) of
                   Inl err \<Rightarrow> Inl err
                 | Inr leftKind \<Rightarrow>
                     (let delta = (if leftKind = textKind then 1 else 0)
                      in Inr (leftSegment, leftOffset + delta))))
           = Inr (Some j, if getDocSegmentKind (Some (d ! j)) = Inr textKind
                          then cachedLength (d ! j) else 0)" by blast
    then show ?thesis
      using None p g False
      by (auto simp: positionToNodeOffsetTarget_def segmentOf_def)
  qed
next
  case (Some i)
  have i: "i < length d" "refOffset ref < cachedLength (d ! i)"
    using v Some by (simp_all add: validRef_def)
  have p: "localRefToPosition d ref = positionOf d i + refOffset ref"
    using Some by (simp add: localRefToPosition_def toPosition_def)
  have lt: "localRefToPosition d ref < getLength d" using v Some by (rule validRef_bound_lt)
  have g: "getSegmentAndOffset d (localRefToPosition d ref) = Inr (Some i, refOffset ref)"
    using containingSegmentAt_inside [OF i] lt p
    by (simp add: getSegmentAndOffset_def getContainingSegment_def)
  from knownKinds_kind [OF kk i(1)] obtain k where k: "getDocSegmentKind (Some (d ! i)) = Inr k"
    by blast
  show ?thesis
  proof (cases "localRefToPosition d ref = 0 \<or> k = textKind")
    case True
    then show ?thesis
      using Some g k i by (auto simp: positionToNodeOffsetTarget_def segmentOf_def)
  next
    case False
    then have "cachedLength (d ! i) = 1"
      using k kind_text_iff [of "d ! i"] isMarker_length [of "d ! i"] by auto
    then have off: "refOffset ref = 0" using i by simp
    then have pi: "localRefToPosition d ref = positionOf d i" using p by simp
    then have "0 < positionOf d i" using False by simp
    from leftTarget [OF kk this] obtain j where
      "j < length d" "positionOf d j + cachedLength (d ! j) = positionOf d i"
      "(case getSegmentAndOffset d (positionOf d i - 1) of
              Inl err \<Rightarrow> Inl err
            | Inr (leftSegment, leftOffset) \<Rightarrow>
                (case getDocSegmentKind (segmentOf d leftSegment) of
                   Inl err \<Rightarrow> Inl err
                 | Inr leftKind \<Rightarrow>
                     (let delta = (if leftKind = textKind then 1 else 0)
                      in Inr (leftSegment, leftOffset + delta))))
           = Inr (Some j, if getDocSegmentKind (Some (d ! j)) = Inr textKind
                          then cachedLength (d ! j) else 0)" by blast
    then show ?thesis
      using Some g k i False pi
      by (auto simp: positionToNodeOffsetTarget_def segmentOf_def)
  qed
qed

text \<open>
  Claim C9. Let a reference be bound in a document whose markers all have a known kind,
  and let it resolve to \<open>position\<close>, owned by \<open>(seg, off)\<close>. If \<open>position\<close> is 0 or
  the owning segment is text, \<^verbatim>\<open>Caret.positionToNodeOffset\<close> returns the coordinate the
  layout gives for \<open>(seg, off)\<close>, from its one call on the layout. Otherwise there is a
  segment \<open>j\<close> that ends at \<open>position\<close> (it holds \<open>position - 1\<close> as its last unit),
  and the function returns the coordinate the layout gives for \<open>(j, length of j)\<close> when
  \<open>j\<close> is text and for \<open>(j, 0)\<close> when it is not. This holds for every layout.
\<close>

theorem positionToNodeOffset_coordinate:
  assumes v: "validRef d ref" and kk: "knownKinds d"
  shows "\<exists>seg off. getSegmentAndOffset d (localRefToPosition d ref) = Inr (seg, off) \<and>
     (if localRefToPosition d ref = 0 \<or> getDocSegmentKind (segmentOf d seg) = Inr textKind
      then positionToNodeOffset lay d ref
             = Inr (lay seg off, [SegmentAndOffsetToNodeAndOffset seg off])
      else \<exists>j. j < length d \<and>
             positionOf d j + cachedLength (d ! j) = localRefToPosition d ref \<and>
             positionToNodeOffset lay d ref
               = (if getDocSegmentKind (Some (d ! j)) = Inr textKind
                  then Inr (lay (Some j) (cachedLength (d ! j)),
                            [SegmentAndOffsetToNodeAndOffset (Some j) (cachedLength (d ! j))])
                  else Inr (lay (Some j) 0, [SegmentAndOffsetToNodeAndOffset (Some j) 0])))"
proof -
  from positionToNodeOffsetTarget_cases [OF v kk] obtain seg off where
    g: "getSegmentAndOffset d (localRefToPosition d ref) = Inr (seg, off)" and
    t: "if localRefToPosition d ref = 0 \<or> getDocSegmentKind (segmentOf d seg) = Inr textKind
      then positionToNodeOffsetTarget d ref = Inr (seg, off)
      else \<exists>j. j < length d \<and>
             positionOf d j + cachedLength (d ! j) = localRefToPosition d ref \<and>
             positionToNodeOffsetTarget d ref
               = Inr (Some j, if getDocSegmentKind (Some (d ! j)) = Inr textKind
                              then cachedLength (d ! j) else 0)" by blast
  show ?thesis
  proof (cases "localRefToPosition d ref = 0 \<or> getDocSegmentKind (segmentOf d seg) = Inr textKind")
    case True
    then have "positionToNodeOffsetTarget d ref = Inr (seg, off)" using t by simp
    then have "positionToNodeOffset lay d ref
             = Inr (lay seg off, [SegmentAndOffsetToNodeAndOffset seg off])"
      by (simp add: positionToNodeOffset_def)
    then show ?thesis using g True by auto
  next
    case False
    then obtain j where j: "j < length d"
      "positionOf d j + cachedLength (d ! j) = localRefToPosition d ref"
      "positionToNodeOffsetTarget d ref
               = Inr (Some j, if getDocSegmentKind (Some (d ! j)) = Inr textKind
                              then cachedLength (d ! j) else 0)" using t by auto
    have "positionToNodeOffset lay d ref
               = (if getDocSegmentKind (Some (d ! j)) = Inr textKind
                  then Inr (lay (Some j) (cachedLength (d ! j)),
                            [SegmentAndOffsetToNodeAndOffset (Some j) (cachedLength (d ! j))])
                  else Inr (lay (Some j) 0, [SegmentAndOffsetToNodeAndOffset (Some j) 0]))"
      using j(3) by (simp add: positionToNodeOffset_def)
    then show ?thesis using g False j(1,2) by auto
  qed
qed

theorem positionToNodeOffset_coordinate_witness:
  "validRef taggedThenText refAtEndMarker \<and> knownKinds taggedThenText \<and>
   localRefToPosition taggedThenText refAtEndMarker = 3 \<and>
   getSegmentAndOffset taggedThenText 3 = Inr (Some 2, 0) \<and>
   getDocSegmentKind (segmentOf taggedThenText (Some 2)) = Inr endTagsKind \<and>
   getDocSegmentKind (Some (taggedThenText ! 1)) = Inr textKind \<and>
   positionToNodeOffset segmentLayout taggedThenText refAtEndMarker
     = Inr ((2, 2), [SegmentAndOffsetToNodeAndOffset (Some 1) 2]) \<and>
   (\<exists>seg off. getSegmentAndOffset taggedThenText (localRefToPosition taggedThenText refAtEndMarker)
        = Inr (seg, off) \<and>
     (if localRefToPosition taggedThenText refAtEndMarker = 0 \<or>
         getDocSegmentKind (segmentOf taggedThenText seg) = Inr textKind
      then positionToNodeOffset segmentLayout taggedThenText refAtEndMarker
             = Inr (segmentLayout seg off, [SegmentAndOffsetToNodeAndOffset seg off])
      else \<exists>j. j < length taggedThenText \<and>
             positionOf taggedThenText j + cachedLength (taggedThenText ! j)
               = localRefToPosition taggedThenText refAtEndMarker \<and>
             positionToNodeOffset segmentLayout taggedThenText refAtEndMarker
               = (if getDocSegmentKind (Some (taggedThenText ! j)) = Inr textKind
                  then Inr (segmentLayout (Some j) (cachedLength (taggedThenText ! j)),
                            [SegmentAndOffsetToNodeAndOffset (Some j)
                               (cachedLength (taggedThenText ! j))])
                  else Inr (segmentLayout (Some j) 0,
                            [SegmentAndOffsetToNodeAndOffset (Some j) 0]))))"
proof -
  have v: "validRef taggedThenText refAtEndMarker" by code_simp
  have kk: "knownKinds taggedThenText" by code_simp
  have p: "localRefToPosition taggedThenText refAtEndMarker = 3" by code_simp
  have g: "getSegmentAndOffset taggedThenText 3 = Inr (Some 2, 0)" by code_simp
  have k2: "getDocSegmentKind (segmentOf taggedThenText (Some 2)) = Inr endTagsKind" by code_simp
  have k1: "getDocSegmentKind (Some (taggedThenText ! 1)) = Inr textKind" by code_simp
  have t: "positionToNodeOffset segmentLayout taggedThenText refAtEndMarker
     = Inr ((2, 2), [SegmentAndOffsetToNodeAndOffset (Some 1) 2])" by code_simp
  from positionToNodeOffset_coordinate [OF v kk, of segmentLayout] v kk p g k2 k1 t
  show ?thesis by (intro conjI) assumption+
qed





section \<open>Claims about CSS classes\<close>








end
